theory Spec2Isabelle
  imports Main
begin

section \<open>Error taxonomy (errors.h)\<close>

text \<open>
  The exception classes of namespace \<open>ExpressionParserErrors\<close>. The first three derive
  from \<open>LexerException\<close>, the other five from \<open>RDParserException\<close>.
\<close>

datatype error =
    InvalidTokenException "string list"
  | EmptyExpressionException
  | TokenIndexOutOfRange
  | ParenthesesMismatchException
  | UnexpectedParenthesesException
  | DivideByZeroException
  | UnexpectedTokenException string
  | UnknownOperatorException

text \<open>
  Every way in which a call can fail to return a value. \<open>Thrown e\<close> is an exception of
  the program's own taxonomy. \<open>StdInvalidArgument\<close> and \<open>StdOutOfRange\<close> are the two
  exceptions of the standard library that \<open>std::stoi\<close> throws. \<open>SignedOverflow\<close>
  marks an \<open>int\<close> operation whose mathematical result does not fit in \<open>int\<close>: C++
  leaves such an operation undefined, so the model stops there.
\<close>

datatype failure =
    Thrown error
  | StdInvalidArgument
  | StdOutOfRange
  | SignedOverflow

section \<open>The type int\<close>

text \<open>\<open>int\<close> is the 32-bit two's complement type of the supported targets.\<close>

definition INT_MIN :: int where
  "INT_MIN = - 2147483648"

definition INT_MAX :: int where
  "INT_MAX = 2147483647"

definition in_int :: "int \<Rightarrow> bool" where
  "in_int v \<longleftrightarrow> INT_MIN \<le> v \<and> v \<le> INT_MAX"

definition int_result :: "int \<Rightarrow> failure + int" where
  "int_result v = (if in_int v then Inr v else Inl SignedOverflow)"

text \<open>C++ division of integers: the quotient with its fractional part discarded.\<close>

definition trunc_div :: "int \<Rightarrow> int \<Rightarrow> int" where
  "trunc_div a b =
     (if (a < 0) = (b < 0) then \<bar>a\<bar> div \<bar>b\<bar> else - (\<bar>a\<bar> div \<bar>b\<bar>))"

section \<open>Regular expressions (lexer.h, Lexer::regexFindSubstrings)\<close>

text \<open>
  The two patterns of lexer.h use single-character atoms, one greedy repetition of an
  atom, alternation and grouping. \<open>Bracket cs\<close> is the class \<open>[cs]\<close>, \<open>NegBracket cs\<close>
  the class \<open>[^cs]\<close>, with ranges written out and escapes resolved.
\<close>

datatype atom = Digit | Bracket string | NegBracket string

datatype regex = Atom atom | Plus atom | Alt regex regex | Group regex

definition isdigit :: "char \<Rightarrow> bool" where
  "isdigit c \<longleftrightarrow> c \<in> set ''0123456789''"

fun atom_matches :: "atom \<Rightarrow> char \<Rightarrow> bool" where
  "atom_matches Digit c = isdigit c"
| "atom_matches (Bracket cs) c = (c \<in> set cs)"
| "atom_matches (NegBracket cs) c = (c \<notin> set cs)"

text \<open>
  \<open>match_len r s\<close> is the length of the match of \<open>r\<close> that starts at the first
  character of \<open>s\<close>, if there is one: the repetition is greedy and an alternation
  takes its first alternative that matches.
\<close>

fun match_len :: "regex \<Rightarrow> string \<Rightarrow> nat option" where
  "match_len (Atom a) s =
     (case s of [] \<Rightarrow> None | c # _ \<Rightarrow> if atom_matches a c then Some 1 else None)"
| "match_len (Plus a) s =
     (case takeWhile (atom_matches a) s of [] \<Rightarrow> None | c # cs \<Rightarrow> Some (Suc (length cs)))"
| "match_len (Alt r1 r2) s =
     (case match_len r1 s of Some n \<Rightarrow> Some n | None \<Rightarrow> match_len r2 s)"
| "match_len (Group r) s = match_len r s"

text \<open>\<open>#define REGEX_TOKEN_PATTERN "((\\d+|[-+*\/()]))"\<close>\<close>

definition REGEX_TOKEN_PATTERN :: regex where
  "REGEX_TOKEN_PATTERN = Group (Group (Alt (Plus Digit) (Atom (Bracket ''-+*/()''))))"

text \<open>\<open>#define REGEX_INVALID_TOKEN_PATTERN "([^0-9+\\- *\/()])"\<close>\<close>

definition REGEX_INVALID_TOKEN_PATTERN :: regex where
  "REGEX_INVALID_TOKEN_PATTERN = Group (Atom (NegBracket ''0123456789+- */()''))"

lemma match_len_pos: "match_len r s = Some n \<Longrightarrow> 0 < n \<and> n \<le> length s"
proof (induction r arbitrary: n)
  case (Atom a)
  then show ?case by (auto split: list.splits if_splits)
next
  case (Plus a)
  have "length (takeWhile (atom_matches a) s) \<le> length s"
    by (rule length_takeWhile_le)
  with Plus show ?case by (auto split: list.splits)
next
  case (Alt r1 r2)
  then show ?case by (auto split: option.splits)
next
  case (Group r)
  then show ?case by simp
qed

text \<open>
  The \<open>std::sregex_iterator\<close> loop: the leftmost match, then the leftmost match after
  its end, until the text is used up.
\<close>

function regex_matches :: "regex \<Rightarrow> string \<Rightarrow> string list" where
  "regex_matches r s =
     (if s = [] then []
      else case match_len r s of
             None \<Rightarrow> regex_matches r (tl s)
           | Some n \<Rightarrow> take n s # regex_matches r (drop n s))"
  by pat_completeness auto
termination
  by (relation "measure (\<lambda>(r, s). length s)") (auto dest: match_len_pos)

declare regex_matches.simps [simp del]

section \<open>Lexer (lexer.h, lexer.cpp)\<close>

datatype TokenOperation =
    None_op
  | Literal_op
  | L_Brace
  | R_Brace
  | Subtraction
  | Addition
  | Multiplication
  | Division

record Token =
  operation :: TokenOperation
  token_value :: int
  raw :: string

definition TOKEN_VALUE_NOT_APPLICABLE :: int where
  "TOKEN_VALUE_NOT_APPLICABLE = - 1"

definition UNINITIALISED_EXPRESSION :: string where
  "UNINITIALISED_EXPRESSION = ''Uninit''"

record Lexer =
  token_container :: "Token list"
  expression :: string

text \<open>The constructor \<open>Lexer::Lexer()\<close>.\<close>

definition Lexer_init :: Lexer where
  "Lexer_init = \<lparr>token_container = [], expression = UNINITIALISED_EXPRESSION\<rparr>"

definition regexFindSubstrings :: "Lexer \<Rightarrow> regex \<Rightarrow> string list" where
  "regexFindSubstrings lx pattern = regex_matches pattern (expression lx)"

subsection \<open>std::stoi\<close>

definition isspace :: "char \<Rightarrow> bool" where
  "isspace c \<longleftrightarrow> c \<in> set [CHR '' '', CHR 0x09, CHR 0x0A, CHR 0x0B, CHR 0x0C, CHR 0x0D]"

definition digit_value :: "char \<Rightarrow> int" where
  "digit_value c = int (of_char c) - 48"

definition decimal :: "string \<Rightarrow> int" where
  "decimal ds = foldl (\<lambda>a c. 10 * a + digit_value c) 0 ds"

text \<open>
  \<open>std::stoi(str)\<close> in base 10: leading white space is skipped, a sign is optional,
  then the longest run of digits is read. No digit throws \<open>std::invalid_argument\<close>;
  a value outside \<open>int\<close> throws \<open>std::out_of_range\<close>.
\<close>

definition stoi :: "string \<Rightarrow> failure + int" where
  "stoi str =
     (let s1 = dropWhile isspace str;
          negative = (case s1 of [] \<Rightarrow> False | c # _ \<Rightarrow> c = CHR ''-'');
          s2 = (case s1 of [] \<Rightarrow> [] | c # cs \<Rightarrow> if c = CHR ''-'' \<or> c = CHR ''+'' then cs else s1);
          ds = takeWhile isdigit s2
      in if ds = [] then Inl StdInvalidArgument
         else let v = (if negative then - decimal ds else decimal ds)
              in if in_int v then Inr v else Inl StdOutOfRange)"

subsection \<open>Lexer::Tokenise\<close>

text \<open>The body of the loop over the valid tokens: the token built from one substring.\<close>

definition make_token :: "string \<Rightarrow> failure + Token" where
  "make_token raw_token =
     (let token_type = (case raw_token of [] \<Rightarrow> CHR 0x00 | c # _ \<Rightarrow> c);
          token = \<lparr>operation = None_op, token_value = TOKEN_VALUE_NOT_APPLICABLE, raw = raw_token\<rparr>
      in if token_type = CHR ''('' then Inr (token\<lparr>operation := L_Brace\<rparr>)
         else if token_type = CHR '')'' then Inr (token\<lparr>operation := R_Brace\<rparr>)
         else if token_type = CHR ''-'' then Inr (token\<lparr>operation := Subtraction\<rparr>)
         else if token_type = CHR ''+'' then Inr (token\<lparr>operation := Addition\<rparr>)
         else if token_type = CHR ''*'' then Inr (token\<lparr>operation := Multiplication\<rparr>)
         else if token_type = CHR ''/'' then Inr (token\<lparr>operation := Division\<rparr>)
         else case stoi raw_token of
                Inl e \<Rightarrow> Inl e
              | Inr v \<Rightarrow> Inr (token\<lparr>operation := Literal_op, token_value := v\<rparr>))"

text \<open>The loop itself: each token is pushed to the back of the container.\<close>

fun push_tokens :: "string list \<Rightarrow> Token list \<Rightarrow> failure + Token list" where
  "push_tokens [] container = Inr container"
| "push_tokens (raw_token # rest) container =
     (case make_token raw_token of
        Inl e \<Rightarrow> Inl e
      | Inr token \<Rightarrow> push_tokens rest (container @ [token]))"

definition Tokenise :: "string \<Rightarrow> Lexer \<Rightarrow> failure + Lexer" where
  "Tokenise expr lx0 =
     (let lx = lx0\<lparr>expression := expr\<rparr>;
          invalid_tokens = regexFindSubstrings lx REGEX_INVALID_TOKEN_PATTERN
      in if invalid_tokens \<noteq> [] then Inl (Thrown (InvalidTokenException invalid_tokens))
         else let valid_tokens = regexFindSubstrings lx REGEX_TOKEN_PATTERN
              in if valid_tokens = [] then Inl (Thrown EmptyExpressionException)
                 else case push_tokens valid_tokens (token_container lx) of
                        Inl e \<Rightarrow> Inl e
                      | Inr container \<Rightarrow> Inr (lx\<lparr>token_container := container\<rparr>))"

text \<open>
  \<open>getToken\<close> takes an \<open>int\<close>. Its second test compares with the unsigned size of the
  container, and is reached only for an index that is not negative.
\<close>

definition getToken :: "Lexer \<Rightarrow> int \<Rightarrow> failure + Token" where
  "getToken lx token_idx =
     (if token_idx < 0 \<or> token_idx \<ge> int (length (token_container lx))
      then Inl (Thrown TokenIndexOutOfRange)
      else Inr (token_container lx ! nat token_idx))"

definition getTokenCount :: "Lexer \<Rightarrow> nat" where
  "getTokenCount lx = length (token_container lx)"

definition clearTokens :: "Lexer \<Rightarrow> Lexer" where
  "clearTokens lx = lx\<lparr>token_container := [], expression := UNINITIALISED_EXPRESSION\<rparr>"

section \<open>Abstract syntax tree (rd_parser.h, rd_parser.cpp)\<close>

datatype Expression =
    Literal int
  | Unary Expression
  | Binary TokenOperation Expression Expression

text \<open>
  The operands of \<open>+\<close>, \<open>-\<close> and \<open>*\<close> are two calls in one C++ expression, and the
  language does not say which call is made first. \<open>operands left_first l r\<close> is the
  pair of values when both calls return; when one fails, the call made first decides
  which failure leaves the expression.
\<close>

definition operands :: "bool \<Rightarrow> failure + int \<Rightarrow> failure + int \<Rightarrow> failure + int \<times> int" where
  "operands left_first l r =
     (if left_first
      then (case l of Inl e \<Rightarrow> Inl e
            | Inr a \<Rightarrow> (case r of Inl e \<Rightarrow> Inl e | Inr b \<Rightarrow> Inr (a, b)))
      else (case r of Inl e \<Rightarrow> Inl e
            | Inr b \<Rightarrow> (case l of Inl e \<Rightarrow> Inl e | Inr a \<Rightarrow> Inr (a, b))))"

text \<open>
  \<open>Evaluate\<close> of the three node classes. The parameter \<open>lf\<close> is the compiler's choice
  of the operand evaluated first, for each of the three operators that leave it open.
  Division is written in two statements: the right operand first, the left operand
  only after the test for zero.
\<close>

fun Evaluate :: "(TokenOperation \<Rightarrow> bool) \<Rightarrow> Expression \<Rightarrow> failure + int" where
  "Evaluate lf (Literal v) = Inr v"
| "Evaluate lf (Unary right) =
     (case Evaluate lf right of Inl e \<Rightarrow> Inl e | Inr v \<Rightarrow> int_result (- v))"
| "Evaluate lf (Binary op left right) =
     (case op of
        Addition \<Rightarrow>
          (case operands (lf op) (Evaluate lf left) (Evaluate lf right) of
             Inl e \<Rightarrow> Inl e | Inr (a, b) \<Rightarrow> int_result (a + b))
      | Subtraction \<Rightarrow>
          (case operands (lf op) (Evaluate lf left) (Evaluate lf right) of
             Inl e \<Rightarrow> Inl e | Inr (a, b) \<Rightarrow> int_result (a - b))
      | Multiplication \<Rightarrow>
          (case operands (lf op) (Evaluate lf left) (Evaluate lf right) of
             Inl e \<Rightarrow> Inl e | Inr (a, b) \<Rightarrow> int_result (a * b))
      | Division \<Rightarrow>
          (case Evaluate lf right of
             Inl e \<Rightarrow> Inl e
           | Inr right_value \<Rightarrow>
               if right_value = 0 then Inl (Thrown DivideByZeroException)
               else (case Evaluate lf left of
                       Inl e \<Rightarrow> Inl e
                     | Inr a \<Rightarrow> int_result (trunc_div a right_value)))
      | _ \<Rightarrow> Inl (Thrown UnknownOperatorException))"

section \<open>Recursive descent (rd_parser.cpp)\<close>

record RDParser =
  lexer :: Lexer
  current_token_idx :: int

text \<open>The constructor \<open>RDParser::RDParser()\<close>.\<close>

definition RDParser_init :: RDParser where
  "RDParser_init = \<lparr>lexer = Lexer_init, current_token_idx = 0\<rparr>"

text \<open>
  The parsing routines read the lexer and change only \<open>current_token_idx\<close>. Each takes
  the lexer and the cursor, and returns a failure or its value with the new cursor.

  \<open>tokenMatchAndAdvance\<close> compares the cursor, an \<open>int\<close>, with the unsigned token
  count: the cursor is converted to unsigned, so a negative cursor is not below the count.

  The cursor never exceeds the token count, which is taken to fit in \<open>int\<close>, and the
  call stack is taken to hold the calls: the model has no failure for either.
\<close>

definition tokenMatchAndAdvance :: "Lexer \<Rightarrow> TokenOperation \<Rightarrow> int \<Rightarrow> failure + bool \<times> int" where
  "tokenMatchAndAdvance lx op cur =
     (if 0 \<le> cur \<and> cur < int (getTokenCount lx)
      then (case getToken lx cur of
              Inl e \<Rightarrow> Inl e
            | Inr t \<Rightarrow> if operation t = op then Inr (True, cur + 1) else Inr (False, cur))
      else Inr (False, cur))"

text \<open>The condition of the loop in \<open>parseBinary\<close>: four calls joined by \<open>||\<close>.\<close>

definition matchBinaryOperator :: "Lexer \<Rightarrow> int \<Rightarrow> failure + bool \<times> int" where
  "matchBinaryOperator lx cur =
     (case tokenMatchAndAdvance lx Addition cur of
        Inl e \<Rightarrow> Inl e
      | Inr (m1, c1) \<Rightarrow> if m1 then Inr (True, c1) else
     (case tokenMatchAndAdvance lx Subtraction c1 of
        Inl e \<Rightarrow> Inl e
      | Inr (m2, c2) \<Rightarrow> if m2 then Inr (True, c2) else
     (case tokenMatchAndAdvance lx Multiplication c2 of
        Inl e \<Rightarrow> Inl e
      | Inr (m3, c3) \<Rightarrow> if m3 then Inr (True, c3) else
        tokenMatchAndAdvance lx Division c3)))"

text \<open>The last branch of \<open>parsePrimary\<close>: the index of the bad token is clamped.\<close>

definition unexpectedToken :: "Lexer \<Rightarrow> int \<Rightarrow> failure" where
  "unexpectedToken lx cur =
     (let bad_token_idx = cur;
          token_max_index = int (getTokenCount lx) - 1;
          bad_token_idx = (if bad_token_idx > token_max_index then token_max_index
                           else bad_token_idx)
      in case getToken lx bad_token_idx of
           Inl e \<Rightarrow> e
         | Inr bad_token \<Rightarrow> Thrown (UnexpectedTokenException (raw bad_token)))"

text \<open>
  The four mutually recursive routines and the loop of \<open>parseBinary\<close>. The first
  argument bounds the depth of the calls: every call and every iteration of the loop
  takes one unit, and \<open>None\<close> says that the bound was reached before the routine
  returned.
\<close>

fun parseExpression :: "nat \<Rightarrow> Lexer \<Rightarrow> int \<Rightarrow> (failure + Expression \<times> int) option"
  and parseBinary :: "nat \<Rightarrow> Lexer \<Rightarrow> int \<Rightarrow> (failure + Expression \<times> int) option"
  and parseBinaryLoop :: "nat \<Rightarrow> Lexer \<Rightarrow> Expression \<Rightarrow> int \<Rightarrow> (failure + Expression \<times> int) option"
  and parseUnary :: "nat \<Rightarrow> Lexer \<Rightarrow> int \<Rightarrow> (failure + Expression \<times> int) option"
  and parsePrimary :: "nat \<Rightarrow> Lexer \<Rightarrow> int \<Rightarrow> (failure + Expression \<times> int) option"
where
  "parseExpression 0 lx cur = None"
| "parseExpression (Suc n) lx cur = parseBinary n lx cur"
| "parseBinary 0 lx cur = None"
| "parseBinary (Suc n) lx cur =
     (case parseUnary n lx cur of
        None \<Rightarrow> None
      | Some (Inl e) \<Rightarrow> Some (Inl e)
      | Some (Inr (left, c)) \<Rightarrow> parseBinaryLoop n lx left c)"
| "parseBinaryLoop 0 lx left cur = None"
| "parseBinaryLoop (Suc n) lx left cur =
     (case matchBinaryOperator lx cur of
        Inl e \<Rightarrow> Some (Inl e)
      | Inr (matched, c) \<Rightarrow>
          if \<not> matched then Some (Inr (left, c))
          else (case getToken lx (c - 1) of
                  Inl e \<Rightarrow> Some (Inl e)
                | Inr previous_token \<Rightarrow>
                    (case parseUnary n lx c of
                       None \<Rightarrow> None
                     | Some (Inl e) \<Rightarrow> Some (Inl e)
                     | Some (Inr (right, c')) \<Rightarrow>
                         parseBinaryLoop n lx (Binary (operation previous_token) left right) c')))"
| "parseUnary 0 lx cur = None"
| "parseUnary (Suc n) lx cur =
     (case tokenMatchAndAdvance lx Subtraction cur of
        Inl e \<Rightarrow> Some (Inl e)
      | Inr (matched, c) \<Rightarrow>
          if matched
          then (case parseUnary n lx c of
                  None \<Rightarrow> None
                | Some (Inl e) \<Rightarrow> Some (Inl e)
                | Some (Inr (right, c')) \<Rightarrow> Some (Inr (Unary right, c')))
          else parsePrimary n lx c)"
| "parsePrimary 0 lx cur = None"
| "parsePrimary (Suc n) lx cur =
     (case tokenMatchAndAdvance lx Literal_op cur of
        Inl e \<Rightarrow> Some (Inl e)
      | Inr (is_literal, c) \<Rightarrow>
          if is_literal
          then (case getToken lx (c - 1) of
                  Inl e \<Rightarrow> Some (Inl e)
                | Inr t \<Rightarrow> Some (Inr (Literal (token_value t), c)))
          else (case tokenMatchAndAdvance lx L_Brace c of
                  Inl e \<Rightarrow> Some (Inl e)
                | Inr (is_brace, c1) \<Rightarrow>
                    if is_brace
                    then (case parseExpression n lx c1 of
                            None \<Rightarrow> None
                          | Some (Inl e) \<Rightarrow> Some (Inl e)
                          | Some (Inr (expr, c2)) \<Rightarrow>
                              (case tokenMatchAndAdvance lx R_Brace c2 of
                                 Inl e \<Rightarrow> Some (Inl e)
                               | Inr (closed, c3) \<Rightarrow>
                                   if \<not> closed
                                   then Some (Inl (Thrown ParenthesesMismatchException))
                                   else Some (Inr (expr, c3))))
                    else Some (Inl (unexpectedToken lx c1))))"

text \<open>
  A depth that is enough for a token sequence of the given length (shown below).
\<close>

definition parse_depth :: "Lexer \<Rightarrow> nat" where
  "parse_depth lx = 4 * getTokenCount lx + 4"

text \<open>
  \<open>RDParser::Parse\<close>, run on a parser in any state. The result is \<open>None\<close> only if the
  recursive descent does not return within \<open>parse_depth\<close>.
\<close>

definition Parse :: "(TokenOperation \<Rightarrow> bool) \<Rightarrow> RDParser \<Rightarrow> string \<Rightarrow> (failure + int) option" where
  "Parse lf p expr =
     (let p1 = p\<lparr>current_token_idx := 0\<rparr>;
          lx1 = clearTokens (lexer p1)
      in case Tokenise expr lx1 of
           Inl e \<Rightarrow> Some (Inl e)
         | Inr lx \<Rightarrow>
             (case parseExpression (parse_depth lx) lx (current_token_idx p1) of
                None \<Rightarrow> None
              | Some (Inl e) \<Rightarrow> Some (Inl e)
              | Some (Inr (ast, cur)) \<Rightarrow>
                  if 0 \<le> cur \<and> cur < int (getTokenCount lx)
                  then Some (Inl (Thrown UnexpectedParenthesesException))
                  else Some (Evaluate lf ast)))"

section \<open>Notions used in the statements\<close>

text \<open>The characters that the invalid-token pattern does not match.\<close>

definition allowed_char :: "char \<Rightarrow> bool" where
  "allowed_char c \<longleftrightarrow> c \<in> set ''0123456789+- */()''"

text \<open>The characters of the bracket of the token pattern.\<close>

definition operator_char :: "char \<Rightarrow> bool" where
  "operator_char c \<longleftrightarrow> c \<in> set ''-+*/()''"

text \<open>The characters that belong to some match of the token pattern.\<close>

definition token_char :: "char \<Rightarrow> bool" where
  "token_char c \<longleftrightarrow> isdigit c \<or> operator_char c"

text \<open>What \<open>Tokenise\<close> guarantees of a token: it has an operation, and a literal holds
  a value of \<open>int\<close> that is not negative.\<close>

definition valid_token :: "Token \<Rightarrow> bool" where
  "valid_token t =
     (if operation t = Literal_op then 0 \<le> token_value t \<and> in_int (token_value t)
      else operation t \<noteq> None_op)"

text \<open>A substring that the first alternative of the token pattern matches.\<close>

definition digit_run :: "string \<Rightarrow> bool" where
  "digit_run r \<longleftrightarrow> r \<noteq> [] \<and> (\<forall>c\<in>set r. isdigit c)"

text \<open>The four operations that the loop of \<open>parseBinary\<close> accepts.\<close>

definition is_binary_operator :: "TokenOperation \<Rightarrow> bool" where
  "is_binary_operator op \<longleftrightarrow>
     op = Addition \<or> op = Subtraction \<or> op = Multiplication \<or> op = Division"

text \<open>Every \<open>Binary\<close> node of the tree holds one of these four operations.\<close>

fun known_operators :: "Expression \<Rightarrow> bool" where
  "known_operators (Literal v) = True"
| "known_operators (Unary right) = known_operators right"
| "known_operators (Binary op left right) =
     (is_binary_operator op \<and> known_operators left \<and> known_operators right)"

text \<open>Every \<open>Literal\<close> node of the tree holds a value of \<open>int\<close>.\<close>

fun int_literals :: "Expression \<Rightarrow> bool" where
  "int_literals (Literal v) = in_int v"
| "int_literals (Unary right) = int_literals right"
| "int_literals (Binary op left right) = (int_literals left \<and> int_literals right)"

text \<open>The cursor is on a token with the given operation.\<close>

definition token_at :: "Lexer \<Rightarrow> int \<Rightarrow> TokenOperation \<Rightarrow> bool" where
  "token_at lx cur op \<longleftrightarrow>
     0 \<le> cur \<and> cur < int (length (token_container lx))
     \<and> operation (token_container lx ! nat cur) = op"

text \<open>The cursor is on a token with one of the four binary operations.\<close>

definition operator_at :: "Lexer \<Rightarrow> int \<Rightarrow> bool" where
  "operator_at lx cur \<longleftrightarrow>
     0 \<le> cur \<and> cur < int (length (token_container lx))
     \<and> is_binary_operator (operation (token_container lx ! nat cur))"

text \<open>A routine that returns a tree has moved the cursor forward, not past the last token.\<close>

definition advance_ok :: "Lexer \<Rightarrow> int \<Rightarrow> (failure + Expression \<times> int) option \<Rightarrow> bool" where
  "advance_ok lx cur res =
     (case res of
        Some (Inr (e, c)) \<Rightarrow> cur < c \<and> c \<le> int (length (token_container lx)) \<and> known_operators e
      | _ \<Rightarrow> True)"

text \<open>The same for the loop of \<open>parseBinary\<close>, which may return at once.\<close>

definition loop_ok :: "Lexer \<Rightarrow> int \<Rightarrow> (failure + Expression \<times> int) option \<Rightarrow> bool" where
  "loop_ok lx cur res =
     (case res of
        Some (Inr (e, c)) \<Rightarrow> cur \<le> c \<and> c \<le> int (length (token_container lx)) \<and> known_operators e
      | _ \<Rightarrow> True)"

text \<open>The failures of the recursive descent on the tokens of \<open>Tokenise\<close>.\<close>

definition failure_ok :: "Lexer \<Rightarrow> failure \<Rightarrow> bool" where
  "failure_ok lx f \<longleftrightarrow>
     f = Thrown ParenthesesMismatchException
     \<or> (\<exists>i<length (token_container lx).
           f = Thrown (UnexpectedTokenException (raw (token_container lx ! i))))"

text \<open>What the routines return on the tokens of \<open>Tokenise\<close>.\<close>

definition result_ok :: "Lexer \<Rightarrow> (failure + Expression \<times> int) option \<Rightarrow> bool" where
  "result_ok lx res =
     (case res of
        None \<Rightarrow> True
      | Some (Inl f) \<Rightarrow> failure_ok lx f
      | Some (Inr (e, c)) \<Rightarrow> int_literals e)"

text \<open>The steps of \<open>Parse\<close> before the evaluation, on a cleared lexer: the tree that is
  evaluated, or the failure that the call ends with.\<close>

definition syntax_tree :: "string \<Rightarrow> (failure + Expression) option" where
  "syntax_tree expr =
     (case Tokenise expr Lexer_init of
        Inl e \<Rightarrow> Some (Inl e)
      | Inr lx \<Rightarrow>
          (case parseExpression (parse_depth lx) lx 0 of
             None \<Rightarrow> None
           | Some (Inl e) \<Rightarrow> Some (Inl e)
           | Some (Inr (ast, cur)) \<Rightarrow>
               if 0 \<le> cur \<and> cur < int (getTokenCount lx)
               then Some (Inl (Thrown UnexpectedParenthesesException))
               else Some (Inr ast)))"

text \<open>The two uniform choices of the operand that is evaluated first.\<close>

definition left_to_right :: "TokenOperation \<Rightarrow> bool" where
  "left_to_right op = True"

definition right_to_left :: "TokenOperation \<Rightarrow> bool" where
  "right_to_left op = False"

text \<open>The results of \<open>Evaluate\<close> on a tree of the parser.\<close>

definition evaluation_ok :: "failure + int \<Rightarrow> bool" where
  "evaluation_ok res \<longleftrightarrow>
     (\<exists>v. res = Inr v \<and> in_int v)
     \<or> res = Inl (Thrown DivideByZeroException) \<or> res = Inl SignedOverflow"

text \<open>The tokens of the inputs \<open>7 - 2 * 3\<close>, \<open>5+\<close> and \<open>5)\<close>.\<close>

definition tokens_7_2_3 :: Lexer where
  "tokens_7_2_3 =
     \<lparr>token_container =
        [\<lparr>operation = Literal_op, token_value = 7, raw = ''7''\<rparr>,
         \<lparr>operation = Subtraction, token_value = - 1, raw = ''-''\<rparr>,
         \<lparr>operation = Literal_op, token_value = 2, raw = ''2''\<rparr>,
         \<lparr>operation = Multiplication, token_value = - 1, raw = ''*''\<rparr>,
         \<lparr>operation = Literal_op, token_value = 3, raw = ''3''\<rparr>],
      expression = ''7 - 2 * 3''\<rparr>"

definition tokens_5_plus :: Lexer where
  "tokens_5_plus =
     \<lparr>token_container =
        [\<lparr>operation = Literal_op, token_value = 5, raw = ''5''\<rparr>,
         \<lparr>operation = Addition, token_value = - 1, raw = ''+''\<rparr>],
      expression = ''5+''\<rparr>"

definition tokens_5_paren :: Lexer where
  "tokens_5_paren =
     \<lparr>token_container =
        [\<lparr>operation = Literal_op, token_value = 5, raw = ''5''\<rparr>,
         \<lparr>operation = R_Brace, token_value = - 1, raw = '')''\<rparr>],
      expression = ''5)''\<rparr>"

text \<open>
  A token sequence that continues with pairs of an operator and an operand, and the tree
  that nests such pairs to the left: each pair becomes the root, with the tree of the pairs
  before it as its left child.
\<close>

definition operator_operand_tokens :: "(Token \<times> Token) list \<Rightarrow> Token list" where
  "operator_operand_tokens rest = concat (map (\<lambda>(ot, lt). [ot, lt]) rest)"

definition left_nested :: "Expression \<Rightarrow> (Token \<times> Token) list \<Rightarrow> Expression" where
  "left_nested left rest =
     foldl (\<lambda>left (ot, lt). Binary (operation ot) left (Literal (token_value lt))) left rest"



subsection \<open>The calls of the descent\<close>

text \<open>
  A call of one of the five parsing routines during the descent: the routine, the depth
  left to it, the cursor it starts at and, for the loop of \<open>parseBinary\<close>, the tree
  built so far.
\<close>

datatype routine_call =
    Call_parseExpression nat int
  | Call_parseBinary nat int
  | Call_parseBinaryLoop nat Expression int
  | Call_parseUnary nat int
  | Call_parsePrimary nat int

text \<open>What a call gives.\<close>

fun call_result :: "Lexer \<Rightarrow> routine_call \<Rightarrow> (failure + Expression \<times> int) option" where
  "call_result lx (Call_parseExpression n cur) = parseExpression n lx cur"
| "call_result lx (Call_parseBinary n cur) = parseBinary n lx cur"
| "call_result lx (Call_parseBinaryLoop n left cur) = parseBinaryLoop n lx left cur"
| "call_result lx (Call_parseUnary n cur) = parseUnary n lx cur"
| "call_result lx (Call_parsePrimary n cur) = parsePrimary n lx cur"

text \<open>The cursor and the depth of a call.\<close>

fun call_cursor :: "routine_call \<Rightarrow> int" where
  "call_cursor (Call_parseExpression n cur) = cur"
| "call_cursor (Call_parseBinary n cur) = cur"
| "call_cursor (Call_parseBinaryLoop n left cur) = cur"
| "call_cursor (Call_parseUnary n cur) = cur"
| "call_cursor (Call_parsePrimary n cur) = cur"

fun call_depth :: "routine_call \<Rightarrow> nat" where
  "call_depth (Call_parseExpression n cur) = n"
| "call_depth (Call_parseBinary n cur) = n"
| "call_depth (Call_parseBinaryLoop n left cur) = n"
| "call_depth (Call_parseUnary n cur) = n"
| "call_depth (Call_parsePrimary n cur) = n"

text \<open>
  The calls of parsing routines that the body of a call makes itself, in the order of
  rd_parser.cpp: \<open>parseExpression\<close> calls \<open>parseBinary\<close>; \<open>parseBinary\<close> calls \<open>parseUnary\<close>
  and, once that has returned an operand, goes round its loop; each round of the loop that
  finds an operator calls \<open>parseUnary\<close> and, once that has returned, goes round again;
  \<open>parseUnary\<close> calls itself after a minus sign and \<open>parsePrimary\<close> otherwise;
  \<open>parsePrimary\<close> calls \<open>parseExpression\<close> after an opening parenthesis and nothing
  otherwise. A call that has failed is the last of its caller.
\<close>

fun subcalls :: "Lexer \<Rightarrow> routine_call \<Rightarrow> routine_call list" where
  "subcalls lx (Call_parseExpression 0 cur) = []"
| "subcalls lx (Call_parseExpression (Suc n) cur) = [Call_parseBinary n cur]"
| "subcalls lx (Call_parseBinary 0 cur) = []"
| "subcalls lx (Call_parseBinary (Suc n) cur) =
     Call_parseUnary n cur
     # (case parseUnary n lx cur of
          Some (Inr (left, c)) \<Rightarrow> [Call_parseBinaryLoop n left c]
        | _ \<Rightarrow> [])"
| "subcalls lx (Call_parseBinaryLoop 0 left cur) = []"
| "subcalls lx (Call_parseBinaryLoop (Suc n) left cur) =
     (case matchBinaryOperator lx cur of
        Inl e \<Rightarrow> []
      | Inr (matched, c) \<Rightarrow>
          if \<not> matched then []
          else (case getToken lx (c - 1) of
                  Inl e \<Rightarrow> []
                | Inr previous_token \<Rightarrow>
                    Call_parseUnary n c
                    # (case parseUnary n lx c of
                         Some (Inr (right, c')) \<Rightarrow>
                           [Call_parseBinaryLoop n
                              (Binary (operation previous_token) left right) c']
                       | _ \<Rightarrow> [])))"
| "subcalls lx (Call_parseUnary 0 cur) = []"
| "subcalls lx (Call_parseUnary (Suc n) cur) =
     (case tokenMatchAndAdvance lx Subtraction cur of
        Inl e \<Rightarrow> []
      | Inr (matched, c) \<Rightarrow>
          if matched then [Call_parseUnary n c] else [Call_parsePrimary n c])"
| "subcalls lx (Call_parsePrimary 0 cur) = []"
| "subcalls lx (Call_parsePrimary (Suc n) cur) =
     (case tokenMatchAndAdvance lx Literal_op cur of
        Inl e \<Rightarrow> []
      | Inr (is_literal, c) \<Rightarrow>
          if is_literal then []
          else (case tokenMatchAndAdvance lx L_Brace c of
                  Inl e \<Rightarrow> []
                | Inr (is_brace, c1) \<Rightarrow>
                    if is_brace then [Call_parseExpression n c1] else []))"

text \<open>
  \<open>makes_call lx a b\<close>: the call \<open>b\<close> is \<open>a\<close> or is made, directly or through other calls,
  while \<open>a\<close> runs.
\<close>

definition calls_directly :: "Lexer \<Rightarrow> routine_call \<Rightarrow> routine_call \<Rightarrow> bool" where
  "calls_directly lx a b \<longleftrightarrow> b \<in> set (subcalls lx a)"

definition makes_call :: "Lexer \<Rightarrow> routine_call \<Rightarrow> routine_call \<Rightarrow> bool" where
  "makes_call lx a b \<longleftrightarrow> rtranclp (calls_directly lx) a b"

section \<open>The token sequence of an input\<close>

lemma regex_matches_Nil [simp]: "regex_matches r [] = []"
  by (simp add: regex_matches.simps)

lemma regex_matches_Cons:
  "regex_matches r (c # cs) =
     (case match_len r (c # cs) of
        None \<Rightarrow> regex_matches r cs
      | Some n \<Rightarrow> take n (c # cs) # regex_matches r (drop n (c # cs)))"
  by (subst regex_matches.simps) (simp split: option.split)

lemma atom_matches_Digit: "atom_matches Digit = isdigit"
  by (rule ext) simp

lemma match_len_invalid:
  "match_len REGEX_INVALID_TOKEN_PATTERN (c # cs) =
     (if allowed_char c then None else Some 1)"
  by (simp add: REGEX_INVALID_TOKEN_PATTERN_def allowed_char_def)

lemma invalid_matches:
  "regex_matches REGEX_INVALID_TOKEN_PATTERN s =
     map (\<lambda>c. [c]) (filter (\<lambda>c. \<not> allowed_char c) s)"
proof (induction s)
  case Nil
  show ?case by simp
next
  case (Cons c cs)
  show ?case
  proof (cases "allowed_char c")
    case True
    then show ?thesis
      using Cons.IH by (simp only: regex_matches_Cons match_len_invalid) simp
  next
    case False
    then show ?thesis
      using Cons.IH by (simp only: regex_matches_Cons match_len_invalid) simp
  qed
qed

lemma match_len_token:
  "match_len REGEX_TOKEN_PATTERN (c # cs) =
     (if isdigit c then Some (Suc (length (takeWhile isdigit cs)))
      else if operator_char c then Some 1 else None)"
  by (simp add: REGEX_TOKEN_PATTERN_def atom_matches_Digit operator_char_def)

lemma token_matches_step:
  "regex_matches REGEX_TOKEN_PATTERN (c # cs) =
     (if isdigit c
      then (c # takeWhile isdigit cs) # regex_matches REGEX_TOKEN_PATTERN (dropWhile isdigit cs)
      else if operator_char c then [c] # regex_matches REGEX_TOKEN_PATTERN cs
      else regex_matches REGEX_TOKEN_PATTERN cs)"
  by (simp only: regex_matches_Cons match_len_token)
     (simp add: takeWhile_eq_take [symmetric] dropWhile_eq_drop [symmetric])

lemma token_matches_shape:
  "r \<in> set (regex_matches REGEX_TOKEN_PATTERN s) \<Longrightarrow>
     (r \<noteq> [] \<and> (\<forall>c\<in>set r. isdigit c)) \<or> (\<exists>c. operator_char c \<and> r = [c])"
proof (induction "length s" arbitrary: s rule: less_induct)
  case less
  show ?case
  proof (cases s)
    case Nil
    with less.prems show ?thesis by simp
  next
    case (Cons c cs)
    have shorter: "length (dropWhile isdigit cs) < length s" "length cs < length s"
      using Cons length_dropWhile_le [of isdigit cs] by simp_all
    consider (digit) "isdigit c" | (oper) "\<not> isdigit c" "operator_char c"
      | (skip) "\<not> isdigit c" "\<not> operator_char c" by blast
    then show ?thesis
    proof cases
      case digit
      with less.prems Cons
      have "r = c # takeWhile isdigit cs \<or> r \<in> set (regex_matches REGEX_TOKEN_PATTERN (dropWhile isdigit cs))"
        by (simp only: token_matches_step) simp
      then show ?thesis
      proof
        assume "r = c # takeWhile isdigit cs"
        with digit show ?thesis by (auto dest: set_takeWhileD)
      next
        assume "r \<in> set (regex_matches REGEX_TOKEN_PATTERN (dropWhile isdigit cs))"
        then show ?thesis using less.hyps shorter(1) by blast
      qed
    next
      case oper
      with less.prems Cons
      have "r = [c] \<or> r \<in> set (regex_matches REGEX_TOKEN_PATTERN cs)"
        by (simp only: token_matches_step) simp
      then show ?thesis
      proof
        assume "r = [c]"
        with oper show ?thesis by blast
      next
        assume "r \<in> set (regex_matches REGEX_TOKEN_PATTERN cs)"
        then show ?thesis using less.hyps shorter(2) by blast
      qed
    next
      case skip
      with less.prems Cons
      have "r \<in> set (regex_matches REGEX_TOKEN_PATTERN cs)"
        by (simp only: token_matches_step) simp
      then show ?thesis using less.hyps shorter(2) by blast
    qed
  qed
qed

lemma token_matches_concat:
  "concat (regex_matches REGEX_TOKEN_PATTERN s) = filter token_char s"
proof (induction "length s" arbitrary: s rule: less_induct)
  case less
  show ?case
  proof (cases s)
    case Nil
    then show ?thesis by simp
  next
    case (Cons c cs)
    have shorter: "length (dropWhile isdigit cs) < length s" "length cs < length s"
      using Cons length_dropWhile_le [of isdigit cs] by simp_all
    have IH1: "concat (regex_matches REGEX_TOKEN_PATTERN (dropWhile isdigit cs)) = filter token_char (dropWhile isdigit cs)"
      using less.hyps shorter(1) by blast
    have IH2: "concat (regex_matches REGEX_TOKEN_PATTERN cs) = filter token_char cs"
      using less.hyps shorter(2) by blast
    have digits: "filter token_char (takeWhile isdigit cs) = takeWhile isdigit cs"
      by (rule filter_True) (auto simp: token_char_def dest: set_takeWhileD)
    have split: "filter token_char cs = takeWhile isdigit cs @ filter token_char (dropWhile isdigit cs)"
    proof -
      have "filter token_char cs = filter token_char (takeWhile isdigit cs @ dropWhile isdigit cs)"
        by simp
      also have "\<dots> = takeWhile isdigit cs @ filter token_char (dropWhile isdigit cs)"
        by (simp only: filter_append digits)
      finally show ?thesis .
    qed
    show ?thesis
      unfolding Cons
      by (simp only: token_matches_step) (simp add: IH1 IH2 split token_char_def)
  qed
qed

lemma isdigit_cases:
  "isdigit c \<Longrightarrow> c \<noteq> CHR ''('' \<and> c \<noteq> CHR '')'' \<and> c \<noteq> CHR ''-'' \<and> c \<noteq> CHR ''+''
     \<and> c \<noteq> CHR ''*'' \<and> c \<noteq> CHR ''/'' \<and> \<not> isspace c"
  by (auto simp: isdigit_def isspace_def)

lemma digit_value_nonneg: "isdigit c \<Longrightarrow> 0 \<le> digit_value c"
  by (auto simp: isdigit_def digit_value_def)

lemma foldl_decimal_nonneg:
  "\<forall>c\<in>set ds. isdigit c \<Longrightarrow> 0 \<le> a \<Longrightarrow> 0 \<le> foldl (\<lambda>a c. 10 * a + digit_value c) a ds"
proof (induction ds arbitrary: a)
  case Nil
  then show ?case by simp
next
  case (Cons d ds)
  have "0 \<le> 10 * a + digit_value d"
    using Cons.prems digit_value_nonneg [of d] by simp
  with Cons show ?case by simp
qed

lemma decimal_nonneg: "\<forall>c\<in>set ds. isdigit c \<Longrightarrow> 0 \<le> decimal ds"
  by (simp add: decimal_def foldl_decimal_nonneg)

lemma stoi_digit_run:
  assumes "digit_run r"
  shows "stoi r = (if decimal r \<le> INT_MAX then Inr (decimal r) else Inl StdOutOfRange)"
proof -
  from assms obtain c cs where r: "r = c # cs" and c: "isdigit c" and all: "\<forall>c\<in>set r. isdigit c"
    by (cases r) (auto simp: digit_run_def)
  have tw: "takeWhile isdigit r = r"
    using all by (simp add: takeWhile_eq_all_conv)
  have nn: "0 \<le> decimal r"
    using all by (rule decimal_nonneg)
  have dw: "dropWhile isspace r = r"
    using c isdigit_cases [of c] by (simp add: r)
  have neg: "(case r of [] \<Rightarrow> False | d # _ \<Rightarrow> d = CHR ''-'') = False"
    using c isdigit_cases [of c] by (simp add: r)
  have s2: "(case r of [] \<Rightarrow> [] | d # ds \<Rightarrow> if d = CHR ''-'' \<or> d = CHR ''+'' then ds else r) = r"
    using c isdigit_cases [of c] by (simp add: r)
  have ne: "r \<noteq> []" by (simp add: r)
  have "stoi r = (if in_int (decimal r) then Inr (decimal r) else Inl StdOutOfRange)"
    unfolding stoi_def dw Let_def neg s2 tw using ne by simp
  moreover have "in_int (decimal r) \<longleftrightarrow> decimal r \<le> INT_MAX"
    using nn by (simp add: in_int_def INT_MIN_def)
  ultimately show ?thesis by simp
qed

lemma make_token_digit_run:
  assumes "digit_run r"
  shows "make_token r =
     (if decimal r \<le> INT_MAX
      then Inr \<lparr>operation = Literal_op, token_value = decimal r, raw = r\<rparr>
      else Inl StdOutOfRange)"
proof -
  from assms obtain c cs where r: "r = c # cs" and c: "isdigit c"
    by (cases r) (auto simp: digit_run_def)
  show ?thesis
    using isdigit_cases [OF c] stoi_digit_run [OF assms]
    by (simp add: make_token_def r [symmetric] Let_def) (simp add: r)
qed

lemma make_token_operator:
  assumes "operator_char c"
  shows "\<exists>t. make_token [c] = Inr t \<and> raw t = [c] \<and> operation t \<noteq> Literal_op
            \<and> operation t \<noteq> None_op"
  using assms by (auto simp: make_token_def operator_char_def)

lemma make_token_shape:
  assumes "digit_run r \<or> (\<exists>c. operator_char c \<and> r = [c])"
  shows "(make_token r = Inl StdOutOfRange \<and> digit_run r \<and> INT_MAX < decimal r)
       \<or> (\<exists>t. make_token r = Inr t \<and> raw t = r \<and> valid_token t)"
  using assms
proof
  assume dr: "digit_run r"
  then have "0 \<le> decimal r" by (simp add: digit_run_def decimal_nonneg)
  then show ?thesis
    using dr by (auto simp: make_token_digit_run valid_token_def in_int_def INT_MIN_def)
next
  assume "\<exists>c. operator_char c \<and> r = [c]"
  then obtain c where "operator_char c" "r = [c]" by blast
  with make_token_operator [of c] show ?thesis by (auto simp: valid_token_def)
qed

lemma push_tokens_shape:
  assumes "\<forall>r\<in>set rs. digit_run r \<or> (\<exists>c. operator_char c \<and> r = [c])"
  shows "(push_tokens rs tc = Inl StdOutOfRange \<and> (\<exists>r\<in>set rs. digit_run r \<and> INT_MAX < decimal r))
       \<or> (\<exists>ts. push_tokens rs tc = Inr (tc @ ts) \<and> map raw ts = rs \<and> (\<forall>t\<in>set ts. valid_token t))"
  using assms
proof (induction rs arbitrary: tc)
  case Nil
  then show ?case by simp
next
  case (Cons r rs)
  from Cons.prems have "digit_run r \<or> (\<exists>c. operator_char c \<and> r = [c])" by simp
  from make_token_shape [OF this] show ?case
  proof
    assume "make_token r = Inl StdOutOfRange \<and> digit_run r \<and> INT_MAX < decimal r"
    then show ?thesis by simp
  next
    assume "\<exists>t. make_token r = Inr t \<and> raw t = r \<and> valid_token t"
    then obtain t where t: "make_token r = Inr t" "raw t = r" "valid_token t" by blast
    from Cons.prems have rest: "\<forall>r\<in>set rs. digit_run r \<or> (\<exists>c. operator_char c \<and> r = [c])"
      by simp
    from Cons.IH [OF rest, of "tc @ [t]"] show ?thesis
    proof
      assume "push_tokens rs (tc @ [t]) = Inl StdOutOfRange \<and> (\<exists>r\<in>set rs. digit_run r \<and> INT_MAX < decimal r)"
      then show ?thesis using t by simp
    next
      assume "\<exists>ts. push_tokens rs (tc @ [t]) = Inr ((tc @ [t]) @ ts) \<and> map raw ts = rs \<and> (\<forall>t\<in>set ts. valid_token t)"
      then obtain ts where ts: "push_tokens rs (tc @ [t]) = Inr ((tc @ [t]) @ ts)"
        "map raw ts = rs" "\<forall>t\<in>set ts. valid_token t" by blast
      show ?thesis
        using t ts by (intro disjI2 exI [of _ "t # ts"]) simp
    qed
  qed
qed

lemma Tokenise_cases:
  "(Tokenise s lx0 = Inl (Thrown (InvalidTokenException
        (map (\<lambda>c. [c]) (filter (\<lambda>c. \<not> allowed_char c) s))))
      \<and> (\<exists>c\<in>set s. \<not> allowed_char c))
   \<or> (Tokenise s lx0 = Inl (Thrown EmptyExpressionException)
      \<and> (\<forall>c\<in>set s. allowed_char c))
   \<or> (Tokenise s lx0 = Inl StdOutOfRange
      \<and> (\<forall>c\<in>set s. allowed_char c)
      \<and> (\<exists>r\<in>set (regex_matches REGEX_TOKEN_PATTERN s). digit_run r \<and> INT_MAX < decimal r))
   \<or> (\<exists>ts. Tokenise s lx0 = Inr \<lparr>token_container = token_container lx0 @ ts, expression = s\<rparr>
      \<and> (\<forall>c\<in>set s. allowed_char c)
      \<and> ts \<noteq> [] \<and> map raw ts = regex_matches REGEX_TOKEN_PATTERN s
      \<and> (\<forall>t\<in>set ts. valid_token t))"
proof (cases "filter (\<lambda>c. \<not> allowed_char c) s = []")
  case False
  then have "\<exists>c\<in>set s. \<not> allowed_char c"
    by (simp only: filter_empty_conv) blast
  moreover have "Tokenise s lx0 = Inl (Thrown (InvalidTokenException
        (map (\<lambda>c. [c]) (filter (\<lambda>c. \<not> allowed_char c) s))))"
    using False by (simp add: Tokenise_def regexFindSubstrings_def invalid_matches Let_def)
  ultimately show ?thesis by blast
next
  case True
  then have allowed: "(\<forall>c\<in>set s. allowed_char c)"
    by (simp only: filter_empty_conv) blast
  have inv: "regex_matches REGEX_INVALID_TOKEN_PATTERN s = []"
    using True by (simp only: invalid_matches) simp
  show ?thesis
  proof (cases "regex_matches REGEX_TOKEN_PATTERN s = []")
    case True
    then have "Tokenise s lx0 = Inl (Thrown EmptyExpressionException)"
      using inv by (simp add: Tokenise_def regexFindSubstrings_def Let_def)
    with allowed show ?thesis by blast
  next
    case False
    have shape: "\<forall>r\<in>set (regex_matches REGEX_TOKEN_PATTERN s).
                   digit_run r \<or> (\<exists>c. operator_char c \<and> r = [c])"
      using token_matches_shape unfolding digit_run_def by blast
    have tok: "Tokenise s lx0 =
        (case push_tokens (regex_matches REGEX_TOKEN_PATTERN s) (token_container lx0) of
           Inl e \<Rightarrow> Inl e
         | Inr container \<Rightarrow> Inr \<lparr>token_container = container, expression = s\<rparr>)"
      using inv False
      by (cases lx0) (simp add: Tokenise_def regexFindSubstrings_def Let_def split: sum.splits)
    from push_tokens_shape [OF shape, of "token_container lx0"] show ?thesis
    proof
      assume "push_tokens (regex_matches REGEX_TOKEN_PATTERN s) (token_container lx0) = Inl StdOutOfRange
              \<and> (\<exists>r\<in>set (regex_matches REGEX_TOKEN_PATTERN s). digit_run r \<and> INT_MAX < decimal r)"
      then show ?thesis using tok allowed by simp
    next
      assume "\<exists>ts. push_tokens (regex_matches REGEX_TOKEN_PATTERN s) (token_container lx0)
                     = Inr (token_container lx0 @ ts)
                \<and> map raw ts = regex_matches REGEX_TOKEN_PATTERN s \<and> (\<forall>t\<in>set ts. valid_token t)"
      then obtain ts where ts: "push_tokens (regex_matches REGEX_TOKEN_PATTERN s) (token_container lx0)
                     = Inr (token_container lx0 @ ts)"
        "map raw ts = regex_matches REGEX_TOKEN_PATTERN s" "\<forall>t\<in>set ts. valid_token t" by blast
      have "ts \<noteq> []" using ts(2) False by auto
      moreover have "Tokenise s lx0 = Inr \<lparr>token_container = token_container lx0 @ ts, expression = s\<rparr>"
        using tok ts(1) by simp
      ultimately show ?thesis using ts(2,3) allowed by blast
    qed
  qed
qed

section \<open>The parsing routines, step by step\<close>

lemma tokenMatchAndAdvance_eq:
  "tokenMatchAndAdvance lx op cur =
     (if token_at lx cur op then Inr (True, cur + 1) else Inr (False, cur))"
  by (simp add: tokenMatchAndAdvance_def getToken_def getTokenCount_def token_at_def)

lemma matchBinaryOperator_eq:
  "matchBinaryOperator lx cur =
     (if operator_at lx cur then Inr (True, cur + 1) else Inr (False, cur))"
  by (auto simp: matchBinaryOperator_def tokenMatchAndAdvance_eq is_binary_operator_def
      token_at_def operator_at_def)

lemma getToken_previous:
  "0 \<le> cur \<Longrightarrow> cur < int (length (token_container lx)) \<Longrightarrow>
     getToken lx cur = Inr (token_container lx ! nat cur)"
  by (simp add: getToken_def)

lemma unexpectedToken_eq:
  assumes "token_container lx \<noteq> []" and "0 \<le> cur"
  shows "unexpectedToken lx cur =
     Thrown (UnexpectedTokenException
       (raw (token_container lx ! nat (min cur (int (length (token_container lx)) - 1)))))"
proof -
  have "0 < length (token_container lx)" using assms(1) by simp
  then show ?thesis
    using assms(2)
    by (auto simp: unexpectedToken_def getToken_def getTokenCount_def Let_def min_def)
qed

lemma parseBinary_Suc:
  "parseBinary (Suc n) lx cur =
     (case parseUnary n lx cur of
        None \<Rightarrow> None
      | Some (Inl e) \<Rightarrow> Some (Inl e)
      | Some (Inr (left, c)) \<Rightarrow> parseBinaryLoop n lx left c)"
  by simp

lemma parseBinaryLoop_Suc:
  "parseBinaryLoop (Suc n) lx left cur =
     (if operator_at lx cur
      then (case parseUnary n lx (cur + 1) of
              None \<Rightarrow> None
            | Some (Inl e) \<Rightarrow> Some (Inl e)
            | Some (Inr (right, c')) \<Rightarrow>
                parseBinaryLoop n lx
                  (Binary (operation (token_container lx ! nat cur)) left right) c')
      else Some (Inr (left, cur)))"
proof (cases "operator_at lx cur")
  case True
  then have "getToken lx cur = Inr (token_container lx ! nat cur)"
    by (simp add: operator_at_def getToken_previous)
  with True show ?thesis by (simp add: matchBinaryOperator_eq)
next
  case False
  then show ?thesis by (simp add: matchBinaryOperator_eq)
qed

lemma parseUnary_Suc:
  "parseUnary (Suc n) lx cur =
     (if token_at lx cur Subtraction
      then (case parseUnary n lx (cur + 1) of
              None \<Rightarrow> None
            | Some (Inl e) \<Rightarrow> Some (Inl e)
            | Some (Inr (right, c')) \<Rightarrow> Some (Inr (Unary right, c')))
      else parsePrimary n lx cur)"
  by (simp add: tokenMatchAndAdvance_eq)

lemma parsePrimary_Suc:
  "parsePrimary (Suc n) lx cur =
     (if token_at lx cur Literal_op
      then Some (Inr (Literal (token_value (token_container lx ! nat cur)), cur + 1))
      else if token_at lx cur L_Brace
      then (case parseExpression n lx (cur + 1) of
              None \<Rightarrow> None
            | Some (Inl e) \<Rightarrow> Some (Inl e)
            | Some (Inr (expr, c2)) \<Rightarrow>
                if token_at lx c2 R_Brace then Some (Inr (expr, c2 + 1))
                else Some (Inl (Thrown ParenthesesMismatchException)))
      else Some (Inl (unexpectedToken lx cur)))"
proof (cases "token_at lx cur Literal_op")
  case True
  then have "getToken lx cur = Inr (token_container lx ! nat cur)"
    by (simp add: token_at_def getToken_previous)
  with True show ?thesis by (simp add: tokenMatchAndAdvance_eq)
next
  case False
  then show ?thesis
    by (simp add: tokenMatchAndAdvance_eq split: option.splits sum.splits)
qed

section \<open>Progress of the cursor\<close>

declare parseBinary.simps(2) [simp del] parseBinaryLoop.simps(2) [simp del]
  parseUnary.simps(2) [simp del] parsePrimary.simps(2) [simp del]

lemma advance_okI:
  "(\<And>e c. res = Some (Inr (e, c)) \<Longrightarrow>
      cur < c \<and> c \<le> int (length (token_container lx)) \<and> known_operators e) \<Longrightarrow>
   advance_ok lx cur res"
  by (auto simp: advance_ok_def split: option.splits sum.splits)

lemma advance_okD:
  "advance_ok lx cur res \<Longrightarrow> res = Some (Inr (e, c)) \<Longrightarrow>
     cur < c \<and> c \<le> int (length (token_container lx)) \<and> known_operators e"
  by (simp add: advance_ok_def)

lemma loop_okI:
  "(\<And>e c. res = Some (Inr (e, c)) \<Longrightarrow>
      cur \<le> c \<and> c \<le> int (length (token_container lx)) \<and> known_operators e) \<Longrightarrow>
   loop_ok lx cur res"
  by (auto simp: loop_ok_def split: option.splits sum.splits)

lemma loop_okD:
  "loop_ok lx cur res \<Longrightarrow> res = Some (Inr (e, c)) \<Longrightarrow>
     cur \<le> c \<and> c \<le> int (length (token_container lx)) \<and> known_operators e"
  by (simp add: loop_ok_def)

lemma parse_progress:
  "(\<forall>cur. 0 \<le> cur \<longrightarrow> advance_ok lx cur (parseExpression n lx cur))
 \<and> (\<forall>cur. 0 \<le> cur \<longrightarrow> advance_ok lx cur (parseBinary n lx cur))
 \<and> (\<forall>cur left. 0 \<le> cur \<longrightarrow> cur \<le> int (length (token_container lx)) \<longrightarrow> known_operators left \<longrightarrow>
       loop_ok lx cur (parseBinaryLoop n lx left cur))
 \<and> (\<forall>cur. 0 \<le> cur \<longrightarrow> advance_ok lx cur (parseUnary n lx cur))
 \<and> (\<forall>cur. 0 \<le> cur \<longrightarrow> advance_ok lx cur (parsePrimary n lx cur))"
proof (induction n)
  case 0
  show ?case by (simp add: advance_ok_def loop_ok_def)
next
  case (Suc n)
  then have IH_E: "\<And>cur. 0 \<le> cur \<Longrightarrow> advance_ok lx cur (parseExpression n lx cur)"
    and IH_B: "\<And>cur. 0 \<le> cur \<Longrightarrow> advance_ok lx cur (parseBinary n lx cur)"
    and IH_L: "\<And>cur left. 0 \<le> cur \<Longrightarrow> cur \<le> int (length (token_container lx)) \<Longrightarrow>
                 known_operators left \<Longrightarrow> loop_ok lx cur (parseBinaryLoop n lx left cur)"
    and IH_U: "\<And>cur. 0 \<le> cur \<Longrightarrow> advance_ok lx cur (parseUnary n lx cur)"
    and IH_P: "\<And>cur. 0 \<le> cur \<Longrightarrow> advance_ok lx cur (parsePrimary n lx cur)"
    by blast+
  have E: "advance_ok lx cur (parseExpression (Suc n) lx cur)" if "0 \<le> cur" for cur
    using IH_B [OF that] by simp
  have B: "advance_ok lx cur (parseBinary (Suc n) lx cur)" if "0 \<le> cur" for cur
  proof (rule advance_okI)
    fix e c assume res: "parseBinary (Suc n) lx cur = Some (Inr (e, c))"
    then obtain left c1 where u: "parseUnary n lx cur = Some (Inr (left, c1))"
      and l: "parseBinaryLoop n lx left c1 = Some (Inr (e, c))"
      by (auto simp: parseBinary_Suc split: option.splits sum.splits)
    from advance_okD [OF IH_U [OF that] u]
    have 1: "cur < c1" "c1 \<le> int (length (token_container lx))" "known_operators left"
      by simp_all
    from 1 that have "0 \<le> c1" by simp
    from loop_okD [OF IH_L [OF this 1(2) 1(3)] l] 1(1)
    show "cur < c \<and> c \<le> int (length (token_container lx)) \<and> known_operators e" by simp
  qed
  have L: "loop_ok lx cur (parseBinaryLoop (Suc n) lx left cur)"
    if "0 \<le> cur" "cur \<le> int (length (token_container lx))" "known_operators left" for cur left
  proof (rule loop_okI)
    fix e c assume res: "parseBinaryLoop (Suc n) lx left cur = Some (Inr (e, c))"
    show "cur \<le> c \<and> c \<le> int (length (token_container lx)) \<and> known_operators e"
    proof (cases "operator_at lx cur")
      case False
      with res that show ?thesis by (simp add: parseBinaryLoop_Suc)
    next
      case True
      with res obtain right c1 where u: "parseUnary n lx (cur + 1) = Some (Inr (right, c1))"
        and l: "parseBinaryLoop n lx
                  (Binary (operation (token_container lx ! nat cur)) left right) c1
                = Some (Inr (e, c))"
        by (auto simp: parseBinaryLoop_Suc split: option.splits sum.splits)
      from that have "0 \<le> cur + 1" by simp
      from advance_okD [OF IH_U [OF this] u]
      have 1: "cur + 1 < c1" "c1 \<le> int (length (token_container lx))" "known_operators right"
        by simp_all
      have k: "known_operators (Binary (operation (token_container lx ! nat cur)) left right)"
        using True that(3) 1(3) by (simp add: operator_at_def)
      from 1 that have "0 \<le> c1" by simp
      from loop_okD [OF IH_L [OF this 1(2) k] l] 1(1)
      show ?thesis by simp
    qed
  qed
  have U: "advance_ok lx cur (parseUnary (Suc n) lx cur)" if "0 \<le> cur" for cur
  proof (rule advance_okI)
    fix e c assume res: "parseUnary (Suc n) lx cur = Some (Inr (e, c))"
    show "cur < c \<and> c \<le> int (length (token_container lx)) \<and> known_operators e"
    proof (cases "token_at lx cur Subtraction")
      case False
      with res have "parsePrimary n lx cur = Some (Inr (e, c))" by (simp add: parseUnary_Suc)
      from advance_okD [OF IH_P [OF that] this] show ?thesis .
    next
      case True
      with res obtain right where u: "parseUnary n lx (cur + 1) = Some (Inr (right, c))"
        and e: "e = Unary right"
        by (auto simp: parseUnary_Suc split: option.splits sum.splits)
      from that have "0 \<le> cur + 1" by simp
      from advance_okD [OF IH_U [OF this] u] e show ?thesis by simp
    qed
  qed
  have P: "advance_ok lx cur (parsePrimary (Suc n) lx cur)" if "0 \<le> cur" for cur
  proof (rule advance_okI)
    fix e c assume res: "parsePrimary (Suc n) lx cur = Some (Inr (e, c))"
    show "cur < c \<and> c \<le> int (length (token_container lx)) \<and> known_operators e"
    proof (cases "token_at lx cur Literal_op")
      case True
      with res show ?thesis by (auto simp: parsePrimary_Suc token_at_def)
    next
      case False
      with res have brace: "token_at lx cur L_Brace"
        by (auto simp: parsePrimary_Suc split: if_splits)
      with res False obtain c2 where x: "parseExpression n lx (cur + 1) = Some (Inr (e, c2))"
        and r: "token_at lx c2 R_Brace" and c: "c = c2 + 1"
        by (auto simp: parsePrimary_Suc split: option.splits sum.splits if_splits)
      from that have "0 \<le> cur + 1" by simp
      from advance_okD [OF IH_E [OF this] x] r c show ?thesis
        by (simp add: token_at_def)
    qed
  qed
  show ?case using E B L U P by blast
qed

section \<open>Results of the parsing routines\<close>

lemma result_ok_simps [simp]:
  "result_ok lx None"
  "result_ok lx (Some (Inl f)) = failure_ok lx f"
  "result_ok lx (Some (Inr (e, c))) = int_literals e"
  by (simp_all add: result_ok_def)

lemma progressD:
  assumes "0 \<le> cur"
  shows "parseExpression n lx cur = Some (Inr (e, c)) \<Longrightarrow>
           cur < c \<and> c \<le> int (length (token_container lx)) \<and> known_operators e"
    and "parseBinary n lx cur = Some (Inr (e, c)) \<Longrightarrow>
           cur < c \<and> c \<le> int (length (token_container lx)) \<and> known_operators e"
    and "parseUnary n lx cur = Some (Inr (e, c)) \<Longrightarrow>
           cur < c \<and> c \<le> int (length (token_container lx)) \<and> known_operators e"
    and "parsePrimary n lx cur = Some (Inr (e, c)) \<Longrightarrow>
           cur < c \<and> c \<le> int (length (token_container lx)) \<and> known_operators e"
  using parse_progress [of lx n] assms by (blast dest: advance_okD)+

lemma nat_index: "0 \<le> cur \<Longrightarrow> cur < int (length xs) \<Longrightarrow> nat cur < length xs"
  by arith

lemma unexpectedToken_ok:
  assumes "token_container lx \<noteq> []" "0 \<le> cur"
  shows "failure_ok lx (unexpectedToken lx cur)"
proof -
  have "nat (min cur (int (length (token_container lx)) - 1)) < length (token_container lx)"
    using assms by (cases "token_container lx") (auto simp: min_def)
  then show ?thesis
    unfolding unexpectedToken_eq [OF assms] failure_ok_def by blast
qed

lemma parse_results:
  assumes ne: "token_container lx \<noteq> []"
    and valid: "\<forall>t\<in>set (token_container lx). valid_token t"
  shows "(\<forall>cur. 0 \<le> cur \<longrightarrow> result_ok lx (parseExpression n lx cur))
       \<and> (\<forall>cur. 0 \<le> cur \<longrightarrow> result_ok lx (parseBinary n lx cur))
       \<and> (\<forall>cur left. 0 \<le> cur \<longrightarrow> int_literals left \<longrightarrow>
             result_ok lx (parseBinaryLoop n lx left cur))
       \<and> (\<forall>cur. 0 \<le> cur \<longrightarrow> result_ok lx (parseUnary n lx cur))
       \<and> (\<forall>cur. 0 \<le> cur \<longrightarrow> result_ok lx (parsePrimary n lx cur))"
proof (induction n)
  case 0
  show ?case by simp
next
  case (Suc n)
  then have IH_E: "\<And>cur. 0 \<le> cur \<Longrightarrow> result_ok lx (parseExpression n lx cur)"
    and IH_B: "\<And>cur. 0 \<le> cur \<Longrightarrow> result_ok lx (parseBinary n lx cur)"
    and IH_L: "\<And>cur left. 0 \<le> cur \<Longrightarrow> int_literals left \<Longrightarrow>
                 result_ok lx (parseBinaryLoop n lx left cur)"
    and IH_U: "\<And>cur. 0 \<le> cur \<Longrightarrow> result_ok lx (parseUnary n lx cur)"
    and IH_P: "\<And>cur. 0 \<le> cur \<Longrightarrow> result_ok lx (parsePrimary n lx cur)"
    by blast+
  have E: "result_ok lx (parseExpression (Suc n) lx cur)" if "0 \<le> cur" for cur
    using IH_B [OF that] by simp
  have B: "result_ok lx (parseBinary (Suc n) lx cur)" if "0 \<le> cur" for cur
  proof (cases "parseUnary n lx cur")
    case None
    then show ?thesis by (simp add: parseBinary_Suc)
  next
    case (Some r)
    show ?thesis
    proof (cases r)
      case (Inl f)
      with Some IH_U [OF that] show ?thesis by (simp add: parseBinary_Suc)
    next
      case (Inr p)
      obtain left c1 where p: "p = (left, c1)" by (cases p)
      have u: "parseUnary n lx cur = Some (Inr (left, c1))" using Some Inr p by simp
      from progressD(3) [OF that u] that have "0 \<le> c1" by simp
      moreover from IH_U [OF that] u have "int_literals left" by simp
      ultimately have "result_ok lx (parseBinaryLoop n lx left c1)" by (rule IH_L)
      then show ?thesis using u by (simp add: parseBinary_Suc)
    qed
  qed
  have L: "result_ok lx (parseBinaryLoop (Suc n) lx left cur)"
    if "0 \<le> cur" "int_literals left" for cur left
  proof (cases "operator_at lx cur")
    case False
    then show ?thesis using that by (simp add: parseBinaryLoop_Suc)
  next
    case True
    from that have c1: "0 \<le> cur + 1" by simp
    show ?thesis
    proof (cases "parseUnary n lx (cur + 1)")
      case None
      with True show ?thesis by (simp add: parseBinaryLoop_Suc)
    next
      case (Some r)
      show ?thesis
      proof (cases r)
        case (Inl f)
        with Some True IH_U [OF c1] show ?thesis by (simp add: parseBinaryLoop_Suc)
      next
        case (Inr p)
        obtain right c2 where p: "p = (right, c2)" by (cases p)
        have u: "parseUnary n lx (cur + 1) = Some (Inr (right, c2))" using Some Inr p by simp
        from progressD(3) [OF c1 u] that have "0 \<le> c2" by simp
        moreover from IH_U [OF c1] u that(2)
        have "int_literals (Binary (operation (token_container lx ! nat cur)) left right)"
          by simp
        ultimately have "result_ok lx (parseBinaryLoop n lx
            (Binary (operation (token_container lx ! nat cur)) left right) c2)"
          by (rule IH_L)
        then show ?thesis using u True by (simp add: parseBinaryLoop_Suc)
      qed
    qed
  qed
  have U: "result_ok lx (parseUnary (Suc n) lx cur)" if "0 \<le> cur" for cur
  proof (cases "token_at lx cur Subtraction")
    case False
    then show ?thesis using IH_P [OF that] by (simp add: parseUnary_Suc)
  next
    case True
    from that have "0 \<le> cur + 1" by simp
    from IH_U [OF this] True show ?thesis
      by (auto simp: parseUnary_Suc split: option.splits sum.splits)
  qed
  have P: "result_ok lx (parsePrimary (Suc n) lx cur)" if "0 \<le> cur" for cur
  proof (cases "token_at lx cur Literal_op")
    case True
    then have "token_container lx ! nat cur \<in> set (token_container lx)"
      and "operation (token_container lx ! nat cur) = Literal_op"
      by (simp_all add: token_at_def nat_index)
    with valid have "in_int (token_value (token_container lx ! nat cur))"
      by (auto simp: valid_token_def)
    with True show ?thesis by (simp add: parsePrimary_Suc)
  next
    case False
    show ?thesis
    proof (cases "token_at lx cur L_Brace")
      case no: False
      with False unexpectedToken_ok [OF ne that] show ?thesis by (simp add: parsePrimary_Suc)
    next
      case True
      from that have "0 \<le> cur + 1" by simp
      from IH_E [OF this] False True show ?thesis
        by (auto simp: parsePrimary_Suc failure_ok_def split: option.splits sum.splits)
    qed
  qed
  show ?case using E B L U P by blast
qed

lemma parse_returns:
  "(\<forall>cur. 0 \<le> cur \<longrightarrow> cur \<le> int (length (token_container lx)) \<longrightarrow>
       4 * nat (int (length (token_container lx)) - cur) + 4 \<le> n \<longrightarrow>
       parseExpression n lx cur \<noteq> None)
 \<and> (\<forall>cur. 0 \<le> cur \<longrightarrow> cur \<le> int (length (token_container lx)) \<longrightarrow>
       4 * nat (int (length (token_container lx)) - cur) + 3 \<le> n \<longrightarrow>
       parseBinary n lx cur \<noteq> None)
 \<and> (\<forall>cur left. 0 \<le> cur \<longrightarrow> cur \<le> int (length (token_container lx)) \<longrightarrow>
       known_operators left \<longrightarrow>
       4 * nat (int (length (token_container lx)) - cur) + 1 \<le> n \<longrightarrow>
       parseBinaryLoop n lx left cur \<noteq> None)
 \<and> (\<forall>cur. 0 \<le> cur \<longrightarrow> cur \<le> int (length (token_container lx)) \<longrightarrow>
       4 * nat (int (length (token_container lx)) - cur) + 2 \<le> n \<longrightarrow>
       parseUnary n lx cur \<noteq> None)
 \<and> (\<forall>cur. 0 \<le> cur \<longrightarrow> cur \<le> int (length (token_container lx)) \<longrightarrow>
       4 * nat (int (length (token_container lx)) - cur) + 1 \<le> n \<longrightarrow>
       parsePrimary n lx cur \<noteq> None)"
  (is "?E n \<and> ?B n \<and> ?L n \<and> ?U n \<and> ?P n")
proof (induction n)
  case 0
  show ?case by simp
next
  case (Suc n)
  let ?len = "int (length (token_container lx))"
  from Suc have IH_E: "\<And>cur. 0 \<le> cur \<Longrightarrow> cur \<le> ?len \<Longrightarrow> 4 * nat (?len - cur) + 4 \<le> n \<Longrightarrow>
                   parseExpression n lx cur \<noteq> None"
    and IH_B: "\<And>cur. 0 \<le> cur \<Longrightarrow> cur \<le> ?len \<Longrightarrow> 4 * nat (?len - cur) + 3 \<le> n \<Longrightarrow>
                   parseBinary n lx cur \<noteq> None"
    and IH_L: "\<And>cur left. 0 \<le> cur \<Longrightarrow> cur \<le> ?len \<Longrightarrow> known_operators left \<Longrightarrow>
                   4 * nat (?len - cur) + 1 \<le> n \<Longrightarrow> parseBinaryLoop n lx left cur \<noteq> None"
    and IH_U: "\<And>cur. 0 \<le> cur \<Longrightarrow> cur \<le> ?len \<Longrightarrow> 4 * nat (?len - cur) + 2 \<le> n \<Longrightarrow>
                   parseUnary n lx cur \<noteq> None"
    and IH_P: "\<And>cur. 0 \<le> cur \<Longrightarrow> cur \<le> ?len \<Longrightarrow> 4 * nat (?len - cur) + 1 \<le> n \<Longrightarrow>
                   parsePrimary n lx cur \<noteq> None"
    by blast+
  have E: "parseExpression (Suc n) lx cur \<noteq> None"
    if "0 \<le> cur" "cur \<le> ?len" "4 * nat (?len - cur) + 4 \<le> Suc n" for cur
    using IH_B [of cur] that by simp
  have B: "parseBinary (Suc n) lx cur \<noteq> None"
    if "0 \<le> cur" "cur \<le> ?len" "4 * nat (?len - cur) + 3 \<le> Suc n" for cur
  proof -
    have u: "parseUnary n lx cur \<noteq> None" using IH_U [of cur] that by simp
    show ?thesis
    proof (cases "parseUnary n lx cur")
      case None
      with u show ?thesis by simp
    next
      case (Some r)
      show ?thesis
      proof (cases r)
        case (Inl f)
        with Some show ?thesis by (simp add: parseBinary_Suc)
      next
        case (Inr p)
        obtain left c1 where p: "p = (left, c1)" by (cases p)
        have eq: "parseUnary n lx cur = Some (Inr (left, c1))" using Some Inr p by simp
        from progressD(3) [OF that(1) eq]
        have 1: "cur < c1" "c1 \<le> ?len" "known_operators left" by simp_all
        have "parseBinaryLoop n lx left c1 \<noteq> None"
          using 1 that by (intro IH_L) simp_all
        then show ?thesis using eq by (simp add: parseBinary_Suc)
      qed
    qed
  qed
  have L: "parseBinaryLoop (Suc n) lx left cur \<noteq> None"
    if "0 \<le> cur" "cur \<le> ?len" "known_operators left" "4 * nat (?len - cur) + 1 \<le> Suc n"
    for cur left
  proof (cases "operator_at lx cur")
    case False
    then show ?thesis by (simp add: parseBinaryLoop_Suc)
  next
    case True
    then have lt: "cur < ?len" by (simp add: operator_at_def)
    have c1: "0 \<le> cur + 1" "cur + 1 \<le> ?len" using that lt by simp_all
    have u: "parseUnary n lx (cur + 1) \<noteq> None"
      using c1 lt that by (intro IH_U) simp_all
    show ?thesis
    proof (cases "parseUnary n lx (cur + 1)")
      case None
      with u show ?thesis by simp
    next
      case (Some r)
      show ?thesis
      proof (cases r)
        case (Inl f)
        with Some True show ?thesis by (simp add: parseBinaryLoop_Suc)
      next
        case (Inr p)
        obtain right c2 where p: "p = (right, c2)" by (cases p)
        have eq: "parseUnary n lx (cur + 1) = Some (Inr (right, c2))" using Some Inr p by simp
        from progressD(3) [OF c1(1) eq]
        have 1: "cur + 1 < c2" "c2 \<le> ?len" "known_operators right" by simp_all
        have k: "known_operators (Binary (operation (token_container lx ! nat cur)) left right)"
          using True that(3) 1(3) by (simp add: operator_at_def)
        have "parseBinaryLoop n lx
                (Binary (operation (token_container lx ! nat cur)) left right) c2 \<noteq> None"
          using 1 that k by (intro IH_L) simp_all
        then show ?thesis using eq True by (simp add: parseBinaryLoop_Suc)
      qed
    qed
  qed
  have U: "parseUnary (Suc n) lx cur \<noteq> None"
    if "0 \<le> cur" "cur \<le> ?len" "4 * nat (?len - cur) + 2 \<le> Suc n" for cur
  proof (cases "token_at lx cur Subtraction")
    case False
    then show ?thesis using IH_P [of cur] that by (simp add: parseUnary_Suc)
  next
    case True
    then have lt: "cur < ?len" by (simp add: token_at_def)
    have "parseUnary n lx (cur + 1) \<noteq> None"
      using lt that by (intro IH_U) simp_all
    then show ?thesis using True
      by (auto simp: parseUnary_Suc split: option.splits sum.splits)
  qed
  have P: "parsePrimary (Suc n) lx cur \<noteq> None"
    if "0 \<le> cur" "cur \<le> ?len" "4 * nat (?len - cur) + 1 \<le> Suc n" for cur
  proof (cases "token_at lx cur L_Brace")
    case False
    then show ?thesis by (simp add: parsePrimary_Suc)
  next
    case True
    then have lt: "cur < ?len" by (simp add: token_at_def)
    have "parseExpression n lx (cur + 1) \<noteq> None"
      using lt that by (intro IH_E) simp_all
    then show ?thesis
      by (auto simp: parsePrimary_Suc split: option.splits sum.splits)
  qed
  show ?case using E B L U P by blast
qed


lemma clearTokens_init: "clearTokens lx = Lexer_init"
  by (cases lx) (simp add: clearTokens_def Lexer_init_def)

lemma Parse_syntax_tree:
  "Parse lf p expr =
     (case syntax_tree expr of
        None \<Rightarrow> None
      | Some (Inl e) \<Rightarrow> Some (Inl e)
      | Some (Inr ast) \<Rightarrow> Some (Evaluate lf ast))"
  by (simp add: Parse_def syntax_tree_def clearTokens_init split: sum.splits option.splits)

lemma operands_values [simp]: "operands b (Inr x) (Inr y) = Inr (x, y)"
  by (simp add: operands_def)

lemma operands_Inl: "operands b l r = Inl f \<Longrightarrow> l = Inl f \<or> r = Inl f"
  by (auto simp: operands_def split: if_splits sum.splits)

lemma int_result_cases:
  "(int_result v = Inr v \<and> in_int v) \<or> (int_result v = Inl SignedOverflow \<and> \<not> in_int v)"
  by (simp add: int_result_def)

lemma evaluation_ok_int_result: "evaluation_ok (int_result v)"
  using int_result_cases [of v] by (auto simp: evaluation_ok_def)

lemma evaluation_ok_arith:
  assumes "evaluation_ok l" "evaluation_ok r"
  shows "evaluation_ok (case operands b l r of Inl e \<Rightarrow> Inl e | Inr (x, y) \<Rightarrow> int_result (f x y))"
proof (cases "operands b l r")
  case (Inl e)
  from operands_Inl [OF Inl] assms have "evaluation_ok (Inl e)" by auto
  with Inl show ?thesis by simp
next
  case (Inr xy)
  then show ?thesis by (cases xy) (simp add: evaluation_ok_int_result)
qed

lemma Evaluate_ok:
  "known_operators e \<Longrightarrow> int_literals e \<Longrightarrow> evaluation_ok (Evaluate lf e)"
proof (induction e)
  case (Literal v)
  then show ?case by (simp add: evaluation_ok_def)
next
  case (Unary e)
  then have "evaluation_ok (Evaluate lf e)" by simp
  then show ?case
    using evaluation_ok_int_result
    by (cases "Evaluate lf e") (auto simp: evaluation_ok_def)
next
  case (Binary op l r)
  then have l: "evaluation_ok (Evaluate lf l)" and r: "evaluation_ok (Evaluate lf r)"
    and op: "is_binary_operator op" by simp_all
  have arith: "evaluation_ok (case operands (lf op) (Evaluate lf l) (Evaluate lf r) of
                  Inl e \<Rightarrow> Inl e | Inr (x, y) \<Rightarrow> int_result (f x y))" for f
    using l r by (rule evaluation_ok_arith)
  have division: "evaluation_ok (case Evaluate lf r of
           Inl e \<Rightarrow> Inl e
         | Inr right_value \<Rightarrow>
             if right_value = 0 then Inl (Thrown DivideByZeroException)
             else (case Evaluate lf l of
                     Inl e \<Rightarrow> Inl e
                   | Inr a \<Rightarrow> int_result (trunc_div a right_value)))"
  proof (cases "Evaluate lf r")
    case (Inl e)
    with r show ?thesis by simp
  next
    case (Inr v)
    show ?thesis
    proof (cases "Evaluate lf l")
      case (Inl e)
      with l Inr show ?thesis by (simp add: evaluation_ok_def)
    next
      case a: (Inr a)
      with Inr show ?thesis
        using evaluation_ok_int_result by (simp add: evaluation_ok_def)
    qed
  qed
  from op consider "op = Addition" | "op = Subtraction" | "op = Multiplication" | "op = Division"
    by (auto simp: is_binary_operator_def)
  then show ?case
  proof cases
    case 1 then show ?thesis using arith [of "(+)"] by simp
  next
    case 2 then show ?thesis using arith [of "(-)"] by simp
  next
    case 3 then show ?thesis using arith [of "(*)"] by simp
  next
    case 4 then show ?thesis using division by simp
  qed
qed

lemma Tokenise_init:
  assumes "Tokenise s Lexer_init = Inr lx"
  shows "token_container lx \<noteq> []"
    and "\<forall>t\<in>set (token_container lx). valid_token t"
    and "map raw (token_container lx) = regex_matches REGEX_TOKEN_PATTERN s"
    and "\<forall>c\<in>set s. allowed_char c"
proof -
  let ?Q = "\<exists>ts. Tokenise s Lexer_init
        = Inr \<lparr>token_container = token_container Lexer_init @ ts, expression = s\<rparr>
      \<and> (\<forall>c\<in>set s. allowed_char c)
      \<and> ts \<noteq> [] \<and> map raw ts = regex_matches REGEX_TOKEN_PATTERN s
      \<and> (\<forall>t\<in>set ts. valid_token t)"
  from Tokenise_cases [of s Lexer_init]
  have "(\<exists>f. Tokenise s Lexer_init = Inl f) \<or> ?Q" by blast
  moreover have "\<not> (\<exists>f. Tokenise s Lexer_init = Inl f)" using assms by simp
  ultimately have ?Q by blast
  then obtain ts where ts: "Tokenise s Lexer_init
        = Inr \<lparr>token_container = token_container Lexer_init @ ts, expression = s\<rparr>"
    "\<forall>c\<in>set s. allowed_char c" "ts \<noteq> []"
    "map raw ts = regex_matches REGEX_TOKEN_PATTERN s" "\<forall>t\<in>set ts. valid_token t"
    by blast
  from ts(1) assms have lx: "token_container lx = ts"
    by (simp add: Lexer_init_def) (cases lx, simp)
  show "token_container lx \<noteq> []" using lx ts(3) by simp
  show "\<forall>t\<in>set (token_container lx). valid_token t" using lx ts(5) by simp
  show "map raw (token_container lx) = regex_matches REGEX_TOKEN_PATTERN s" using lx ts(4) by simp
  show "\<forall>c\<in>set s. allowed_char c" by (rule ts(2))
qed

lemma parseExpression_returns: "parseExpression (parse_depth lx) lx 0 \<noteq> None"
proof -
  have "4 * nat (int (length (token_container lx)) - 0) + 4 \<le> parse_depth lx"
    by (simp add: parse_depth_def getTokenCount_def)
  with parse_returns [of lx "parse_depth lx"] show ?thesis by simp
qed

lemma parseBinaryLoop_stops:
  "parseBinaryLoop n lx left cur = Some (Inr (e, c)) \<Longrightarrow> \<not> operator_at lx c"
proof (induction n arbitrary: left cur)
  case 0
  then show ?case by simp
next
  case (Suc n)
  show ?case
  proof (cases "operator_at lx cur")
    case False
    with Suc.prems show ?thesis by (simp add: parseBinaryLoop_Suc)
  next
    case True
    with Suc.prems obtain right c1 where
      "parseBinaryLoop n lx (Binary (operation (token_container lx ! nat cur)) left right) c1
         = Some (Inr (e, c))"
      by (auto simp: parseBinaryLoop_Suc split: option.splits sum.splits)
    then show ?thesis by (rule Suc.IH)
  qed
qed

lemma parseExpression_stops:
  assumes "parseExpression n lx cur = Some (Inr (e, c))"
  shows "\<not> operator_at lx c"
proof -
  from assms obtain m where n: "n = Suc (Suc m)"
    by (cases n; cases "n - 1") auto
  with assms obtain left c1 where "parseBinaryLoop m lx left c1 = Some (Inr (e, c))"
    by (auto simp: parseBinary_Suc split: option.splits sum.splits)
  then show ?thesis by (rule parseBinaryLoop_stops)
qed

lemma Parse_unfold:
  "Parse lf p s =
     (case Tokenise s Lexer_init of
        Inl e \<Rightarrow> Some (Inl e)
      | Inr lx \<Rightarrow>
          (case parseExpression (parse_depth lx) lx 0 of
             None \<Rightarrow> None
           | Some (Inl e) \<Rightarrow> Some (Inl e)
           | Some (Inr (ast, cur)) \<Rightarrow>
               if 0 \<le> cur \<and> cur < int (getTokenCount lx)
               then Some (Inl (Thrown UnexpectedParenthesesException))
               else Some (Evaluate lf ast)))"
  by (simp add: Parse_def clearTokens_init split: sum.split)

lemma Tokenise_failures:
  assumes "Tokenise s lx0 = Inl f"
  shows "(f = Thrown (InvalidTokenException (map (\<lambda>c. [c]) (filter (\<lambda>c. \<not> allowed_char c) s)))
           \<and> (\<exists>c\<in>set s. \<not> allowed_char c))
       \<or> f = Thrown EmptyExpressionException
       \<or> (f = StdOutOfRange
           \<and> (\<exists>r\<in>set (regex_matches REGEX_TOKEN_PATTERN s). digit_run r \<and> INT_MAX < decimal r))"
proof -
  from Tokenise_cases [of s lx0]
  have "(Tokenise s lx0 = Inl (Thrown (InvalidTokenException
            (map (\<lambda>c. [c]) (filter (\<lambda>c. \<not> allowed_char c) s))))
          \<and> (\<exists>c\<in>set s. \<not> allowed_char c))
      \<or> Tokenise s lx0 = Inl (Thrown EmptyExpressionException)
      \<or> (Tokenise s lx0 = Inl StdOutOfRange
          \<and> (\<exists>r\<in>set (regex_matches REGEX_TOKEN_PATTERN s). digit_run r \<and> INT_MAX < decimal r))
      \<or> (\<exists>l. Tokenise s lx0 = Inr l)"
    by blast
  with assms show ?thesis by auto
qed

lemma Parse_cases:
  obtains (lexical) f where "Tokenise s Lexer_init = Inl f" "Parse lf p s = Some (Inl f)"
  | (descent) lx f where "Tokenise s Lexer_init = Inr lx"
      "parseExpression (parse_depth lx) lx 0 = Some (Inl f)" "failure_ok lx f"
      "Parse lf p s = Some (Inl f)"
  | (leftover) lx e c where "Tokenise s Lexer_init = Inr lx"
      "parseExpression (parse_depth lx) lx 0 = Some (Inr (e, c))"
      "0 < c" "c < int (length (token_container lx))"
      "Parse lf p s = Some (Inl (Thrown UnexpectedParenthesesException))"
  | (evaluated) lx e where "Tokenise s Lexer_init = Inr lx"
      "parseExpression (parse_depth lx) lx 0 = Some (Inr (e, int (length (token_container lx))))"
      "known_operators e" "int_literals e" "Parse lf p s = Some (Evaluate lf e)"
proof (cases "Tokenise s Lexer_init")
  case (Inl f)
  then have "Parse lf p s = Some (Inl f)" by (simp add: Parse_unfold)
  with Inl show ?thesis by (rule lexical)
next
  case (Inr lx)
  note wf = Tokenise_init [OF Inr]
  from parseExpression_returns [of lx] obtain r
    where r: "parseExpression (parse_depth lx) lx 0 = Some r" by blast
  have ok: "result_ok lx (parseExpression (parse_depth lx) lx 0)"
    using parse_results [OF wf(1) wf(2), of "parse_depth lx"] by simp
  show ?thesis
  proof (cases r)
    case f: (Inl f)
    with r ok have "failure_ok lx f" by simp
    moreover have "Parse lf p s = Some (Inl f)" using Inr r f by (simp add: Parse_unfold)
    ultimately show ?thesis using Inr r f by (intro descent [of lx f]) simp_all
  next
    case q: (Inr q)
    obtain e c where q': "q = (e, c)" by (cases q)
    have pe: "parseExpression (parse_depth lx) lx 0 = Some (Inr (e, c))" using r q q' by simp
    from progressD(1) [OF _ pe]
    have c: "0 < c" "c \<le> int (length (token_container lx))" "known_operators e" by simp_all
    from ok pe have lits: "int_literals e" by simp
    show ?thesis
    proof (cases "c < int (length (token_container lx))")
      case True
      then have "Parse lf p s = Some (Inl (Thrown UnexpectedParenthesesException))"
        using Inr pe c(1) by (simp add: Parse_unfold getTokenCount_def)
      with Inr pe c(1) True show ?thesis by (rule leftover)
    next
      case False
      with c(2) have eq: "c = int (length (token_container lx))" by simp
      have "Parse lf p s = Some (Evaluate lf e)"
        using Inr pe eq by (simp add: Parse_unfold getTokenCount_def)
      with Inr pe c(3) lits show ?thesis unfolding eq by (rule evaluated)
    qed
  qed
qed


lemma trunc_div_in_int:
  assumes "in_int a" "in_int b" "b \<noteq> 0" "\<not> (a = INT_MIN \<and> b = - 1)"
  shows "in_int (trunc_div a b)"
proof -
  let ?m = "\<bar>a\<bar> div \<bar>b\<bar>"
  have lo: "- 2147483648 \<le> a" and hi: "a \<le> 2147483647"
    using assms(1) by (simp_all add: in_int_def INT_MIN_def INT_MAX_def)
  have b1: "1 \<le> \<bar>b\<bar>" using assms(3) by arith
  have m0: "0 \<le> ?m" by (simp add: div_int_pos_iff)
  have ma: "?m \<le> \<bar>a\<bar>"
    using zdiv_mono2 [of "\<bar>a\<bar>" 1 "\<bar>b\<bar>"] b1 by simp
  have a31: "\<bar>a\<bar> \<le> 2147483648" using lo hi by arith
  show ?thesis
  proof (cases "(a < 0) = (b < 0)")
    case False
    then have "trunc_div a b = - ?m" by (simp add: trunc_div_def)
    moreover have "- 2147483648 \<le> - ?m" "- ?m \<le> 2147483647" using m0 ma a31 by arith+
    ultimately show ?thesis by (simp add: in_int_def INT_MIN_def INT_MAX_def)
  next
    case True
    then have q: "trunc_div a b = ?m" by (simp add: trunc_div_def)
    have "?m \<le> 2147483647"
    proof (cases "\<bar>a\<bar> \<le> 2147483647")
      case le: True
      with ma show ?thesis by arith
    next
      case False
      with lo hi have a: "a = - 2147483648" by arith
      with True have "b < 0" by simp
      moreover from assms(4) a have "b \<noteq> - 1" by (simp add: INT_MIN_def)
      ultimately have "2 \<le> \<bar>b\<bar>" by arith
      from zdiv_mono2 [of "\<bar>a\<bar>" 2 "\<bar>b\<bar>"] this have "?m \<le> \<bar>a\<bar> div 2" by simp
      with a show ?thesis by simp
    qed
    moreover have "- 2147483648 \<le> ?m" using m0 by arith
    ultimately show ?thesis using q by (simp add: in_int_def INT_MIN_def INT_MAX_def)
  qed
qed

lemma in_int_numeral [simp]:
  "in_int 0" "in_int 1" "in_int (- 1)"
  by (simp_all add: in_int_def INT_MIN_def INT_MAX_def)

lemma in_int_small:
  "- 2147483648 \<le> v \<Longrightarrow> v \<le> 2147483647 \<Longrightarrow> int_result v = Inr v"
  by (simp add: int_result_def in_int_def INT_MIN_def INT_MAX_def)

lemma parse_three_operands:
  assumes "is_binary_operator op1" "is_binary_operator op2"
    and lx: "lx = \<lparr>token_container =
               [\<lparr>operation = Literal_op, token_value = a, raw = ra\<rparr>,
                \<lparr>operation = op1, token_value = v1, raw = r1\<rparr>,
                \<lparr>operation = Literal_op, token_value = b, raw = rb\<rparr>,
                \<lparr>operation = op2, token_value = v2, raw = r2\<rparr>,
                \<lparr>operation = Literal_op, token_value = c, raw = rc\<rparr>],
             expression = s\<rparr>"
  shows "parseExpression (parse_depth lx) lx 0
         = Some (Inr (Binary op2 (Binary op1 (Literal a) (Literal b)) (Literal c), 5))"
proof -
  have ops: "operator_at lx 1" "operator_at lx 3" "\<not> operator_at lx 5"
    using assms by (simp_all add: operator_at_def)
  have lits: "token_at lx 0 Literal_op" "token_at lx 2 Literal_op" "token_at lx 4 Literal_op"
    "\<not> token_at lx 0 Subtraction" "\<not> token_at lx 2 Subtraction" "\<not> token_at lx 4 Subtraction"
    using lx by (simp_all add: token_at_def)
  have vals: "token_container lx ! nat 0 = \<lparr>operation = Literal_op, token_value = a, raw = ra\<rparr>"
    "operation (token_container lx ! nat 1) = op1"
    "token_value (token_container lx ! nat 2) = b"
    "operation (token_container lx ! nat 3) = op2"
    "token_value (token_container lx ! nat 4) = c"
    using lx by simp_all
  have d: "parse_depth lx = Suc (Suc (Suc (Suc (Suc (Suc 18)))))"
    using lx by (simp add: parse_depth_def getTokenCount_def)
  have p0: "parsePrimary (Suc n) lx 0 = Some (Inr (Literal a, 1))" for n
    using lits vals by (simp add: parsePrimary_Suc)
  have p2: "parsePrimary (Suc n) lx 2 = Some (Inr (Literal b, 3))" for n
    using lits vals by (simp add: parsePrimary_Suc)
  have p4: "parsePrimary (Suc n) lx 4 = Some (Inr (Literal c, 5))" for n
    using lits vals by (simp add: parsePrimary_Suc)
  have u0: "parseUnary (Suc (Suc n)) lx 0 = Some (Inr (Literal a, 1))" for n
    using lits p0 by (simp add: parseUnary_Suc)
  have u2: "parseUnary (Suc (Suc n)) lx 2 = Some (Inr (Literal b, 3))" for n
    using lits p2 by (simp add: parseUnary_Suc)
  have u4: "parseUnary (Suc (Suc n)) lx 4 = Some (Inr (Literal c, 5))" for n
    using lits p4 by (simp add: parseUnary_Suc)
  have l5: "parseBinaryLoop (Suc n) lx left 5 = Some (Inr (left, 5))" for n left
    using ops by (simp add: parseBinaryLoop_Suc)
  have l3: "parseBinaryLoop (Suc (Suc (Suc n))) lx left 3
              = Some (Inr (Binary op2 left (Literal c), 5))" for n left
    using ops vals u4 [of n] l5 by (simp add: parseBinaryLoop_Suc)
  have l1: "parseBinaryLoop (Suc (Suc (Suc (Suc n)))) lx left 1
              = Some (Inr (Binary op2 (Binary op1 left (Literal b)) (Literal c), 5))" for n left
    using ops vals u2 [of "Suc n"] l3 [of n] by (simp add: parseBinaryLoop_Suc)
  have b0: "parseBinary (Suc (Suc (Suc (Suc (Suc n))))) lx 0
              = Some (Inr (Binary op2 (Binary op1 (Literal a) (Literal b)) (Literal c), 5))" for n
    using u0 [of "Suc (Suc n)"] l1 [of n] by (simp add: parseBinary_Suc)
  have e0: "parseExpression (Suc (Suc (Suc (Suc (Suc (Suc n)))))) lx 0
              = Some (Inr (Binary op2 (Binary op1 (Literal a) (Literal b)) (Literal c), 5))" for n
    using b0 [of n] by simp
  show ?thesis
    unfolding d by (rule e0)
qed

lemma cursor_not_operator:
  assumes "parseExpression n lx 0 = Some (Inr (e, c))" "c < int (length (token_container lx))"
  shows "0 < c \<and> \<not> is_binary_operator (operation (token_container lx ! nat c))"
proof -
  from progressD(1) [OF _ assms(1)] have "0 < c" by simp
  moreover from parseExpression_stops [OF assms(1)] have "\<not> operator_at lx c" .
  ultimately show ?thesis using assms(2) by (simp add: operator_at_def)
qed





lemma allowed_token_char: "allowed_char c \<Longrightarrow> token_char c \<longleftrightarrow> c \<noteq> CHR '' ''"
  by (auto simp: allowed_char_def token_char_def isdigit_def operator_char_def)

lemma filter_allowed:
  assumes "\<forall>c\<in>set s. allowed_char c"
  shows "filter token_char s = filter (\<lambda>c. c \<noteq> CHR '' '') s"
  using assms by (intro filter_cong) (simp_all add: allowed_token_char)

section \<open>Operators in a row\<close>

lemma literal_at:
  assumes "0 \<le> cur" "cur < int (length (token_container lx))"
    "operation (token_container lx ! nat cur) = Literal_op"
  shows "parseUnary (Suc (Suc n)) lx cur
           = Some (Inr (Literal (token_value (token_container lx ! nat cur)), cur + 1))"
proof -
  have "token_at lx cur Literal_op" "\<not> token_at lx cur Subtraction"
    using assms by (simp_all add: token_at_def)
  then show ?thesis by (simp add: parseUnary_Suc parsePrimary_Suc)
qed

lemma loop_left_nested:
  assumes "token_container lx = pre @ operator_operand_tokens rest"
    and "\<forall>(ot, lt)\<in>set rest. is_binary_operator (operation ot) \<and> operation lt = Literal_op"
    and "length rest + 2 \<le> n"
  shows "parseBinaryLoop n lx left (int (length pre))
           = Some (Inr (left_nested left rest, int (length (token_container lx))))"
  using assms
proof (induction rest arbitrary: pre left n)
  case Nil
  then obtain m where n: "n = Suc m" by (cases n) auto
  from Nil have "\<not> operator_at lx (int (length pre))"
    by (simp add: operator_at_def operator_operand_tokens_def)
  with Nil show ?case
    by (simp add: n parseBinaryLoop_Suc left_nested_def operator_operand_tokens_def)
next
  case (Cons x rest)
  obtain ot lt where x: "x = (ot, lt)" by (cases x)
  from Cons.prems(3) obtain m where n: "n = Suc (Suc (Suc m))"
    by (cases n; cases "n - 1"; cases "n - 2") auto
  let ?cur = "int (length pre)"
  have tc: "token_container lx = pre @ ot # lt # operator_operand_tokens rest"
    using Cons.prems(1) by (simp add: x operator_operand_tokens_def)
  have ops: "is_binary_operator (operation ot)" "operation lt = Literal_op"
    using Cons.prems(2) by (simp_all add: x)
  have at0: "token_container lx ! nat ?cur = ot"
    by (simp add: tc)
  have at1: "token_container lx ! nat (?cur + 1) = lt"
    by (simp add: tc nat_add_distrib nth_append)
  have op: "operator_at lx ?cur"
    using ops(1) at0 by (simp add: operator_at_def tc)
  have u: "parseUnary (Suc (Suc m)) lx (?cur + 1)
             = Some (Inr (Literal (token_value lt), ?cur + 1 + 1))"
    using literal_at [of "?cur + 1" lx m] at1 ops(2) by (simp add: tc)
  have pre': "token_container lx = (pre @ [ot, lt]) @ operator_operand_tokens rest"
    by (simp add: tc)
  have rest: "\<forall>(ot, lt)\<in>set rest. is_binary_operator (operation ot) \<and> operation lt = Literal_op"
    using Cons.prems(2) by simp
  have depth: "length rest + 2 \<le> Suc (Suc m)"
    using Cons.prems(3) n by simp
  from Cons.IH [OF pre' rest depth, of "Binary (operation ot) left (Literal (token_value lt))"]
  have "parseBinaryLoop (Suc (Suc m)) lx (Binary (operation ot) left (Literal (token_value lt)))
          (?cur + 1 + 1)
        = Some (Inr (left_nested (Binary (operation ot) left (Literal (token_value lt))) rest,
                     int (length (token_container lx))))"
    by (simp add: add.commute)
  then show ?case
    unfolding n using op u at0
    by (simp add: parseBinaryLoop_Suc [of "Suc (Suc m)"] left_nested_def x)
qed

lemma parseExpression_left_nested:
  assumes "operation first = Literal_op"
    and "\<forall>(ot, lt)\<in>set rest. is_binary_operator (operation ot) \<and> operation lt = Literal_op"
    and "token_container lx = first # operator_operand_tokens rest"
  shows "parseExpression (parse_depth lx) lx 0
           = Some (Inr (left_nested (Literal (token_value first)) rest, int (getTokenCount lx)))"
proof -
  have len: "length (token_container lx) = Suc (2 * length rest)"
    using assms(3) by (simp add: operator_operand_tokens_def length_concat comp_def split_def
        sum_list_triv)
  obtain m where d: "parse_depth lx = Suc (Suc (Suc (Suc m)))" and m: "length rest + 2 \<le> Suc (Suc m)"
    using len by (simp add: parse_depth_def getTokenCount_def)
  have u: "parseUnary (Suc (Suc m)) lx 0 = Some (Inr (Literal (token_value first), 0 + 1))"
    using literal_at [of 0 lx m] assms(1,3) by simp
  have tc: "token_container lx = [first] @ operator_operand_tokens rest"
    using assms(3) by simp
  from loop_left_nested [OF tc assms(2) m, of "Literal (token_value first)"]
  have l: "parseBinaryLoop (Suc (Suc m)) lx (Literal (token_value first)) 1
        = Some (Inr (left_nested (Literal (token_value first)) rest,
                     int (length (token_container lx))))"
    by simp
  show ?thesis
    unfolding d using u l by (simp add: parseBinary_Suc getTokenCount_def)
qed

lemma left_nested_snoc:
  "left_nested left (rest @ [(ot, lt)])
     = Binary (operation ot) (left_nested left rest) (Literal (token_value lt))"
  by (simp add: left_nested_def)

section \<open>Work of the descent\<close>









section \<open>Calls of the descent and their failures\<close>

lemma subcalls_parseBinaryLoop_Suc:
  "subcalls lx (Call_parseBinaryLoop (Suc n) left cur) =
     (if operator_at lx cur
      then Call_parseUnary n (cur + 1)
           # (case parseUnary n lx (cur + 1) of
                Some (Inr (right, c')) \<Rightarrow>
                  [Call_parseBinaryLoop n
                     (Binary (operation (token_container lx ! nat cur)) left right) c']
              | _ \<Rightarrow> [])
      else [])"
proof (cases "operator_at lx cur")
  case True
  then have "getToken lx cur = Inr (token_container lx ! nat cur)"
    by (simp add: operator_at_def getToken_previous)
  with True show ?thesis by (simp add: matchBinaryOperator_eq)
next
  case False
  then show ?thesis by (simp add: matchBinaryOperator_eq)
qed

lemma subcalls_parseUnary_Suc:
  "subcalls lx (Call_parseUnary (Suc n) cur) =
     (if token_at lx cur Subtraction then [Call_parseUnary n (cur + 1)]
      else [Call_parsePrimary n cur])"
  by (simp add: tokenMatchAndAdvance_eq)

lemma subcalls_parsePrimary_Suc:
  "subcalls lx (Call_parsePrimary (Suc n) cur) =
     (if \<not> token_at lx cur Literal_op \<and> token_at lx cur L_Brace
      then [Call_parseExpression n (cur + 1)] else [])"
  by (simp add: tokenMatchAndAdvance_eq)

declare subcalls.simps(6) [simp del] subcalls.simps(8) [simp del] subcalls.simps(10) [simp del]

lemma subcalls_parseBinary_cases:
  assumes "b \<in> set (subcalls lx (Call_parseBinary (Suc n) cur))"
  shows "b = Call_parseUnary n cur
       \<or> (\<exists>left c. parseUnary n lx cur = Some (Inr (left, c))
              \<and> b = Call_parseBinaryLoop n left c)"
proof (cases "parseUnary n lx cur")
  case None
  with assms show ?thesis by simp
next
  case (Some r)
  with assms show ?thesis by (cases r) auto
qed

lemma subcalls_parseBinaryLoop_cases:
  assumes "b \<in> set (subcalls lx (Call_parseBinaryLoop (Suc n) left cur))"
  shows "operator_at lx cur
       \<and> (b = Call_parseUnary n (cur + 1)
          \<or> (\<exists>right c. parseUnary n lx (cur + 1) = Some (Inr (right, c))
                 \<and> b = Call_parseBinaryLoop n
                       (Binary (operation (token_container lx ! nat cur)) left right) c))"
proof (cases "operator_at lx cur")
  case False
  with assms show ?thesis by (simp add: subcalls_parseBinaryLoop_Suc)
next
  case True
  show ?thesis
  proof (cases "parseUnary n lx (cur + 1)")
    case None
    with assms True show ?thesis by (simp add: subcalls_parseBinaryLoop_Suc)
  next
    case (Some r)
    with assms True show ?thesis by (cases r) (auto simp: subcalls_parseBinaryLoop_Suc)
  qed
qed

declare subcalls.simps(4) [simp del]

lemma subcall_depth:
  "b \<in> set (subcalls lx a) \<Longrightarrow> call_depth b < call_depth a"
proof (cases a)
  case (Call_parseExpression n cur)
  assume "b \<in> set (subcalls lx a)"
  with Call_parseExpression show ?thesis by (cases n) auto
next
  case (Call_parseBinary n cur)
  assume "b \<in> set (subcalls lx a)"
  with Call_parseBinary show ?thesis
    by (cases n) (auto dest!: subcalls_parseBinary_cases)
next
  case (Call_parseBinaryLoop n left cur)
  assume "b \<in> set (subcalls lx a)"
  with Call_parseBinaryLoop show ?thesis
    by (cases n) (auto dest!: subcalls_parseBinaryLoop_cases)
next
  case (Call_parseUnary n cur)
  assume "b \<in> set (subcalls lx a)"
  with Call_parseUnary show ?thesis
    by (cases n) (auto simp: subcalls_parseUnary_Suc split: if_splits)
next
  case (Call_parsePrimary n cur)
  assume "b \<in> set (subcalls lx a)"
  with Call_parsePrimary show ?thesis
    by (cases n) (auto simp: subcalls_parsePrimary_Suc split: if_splits)
qed

lemma subcall_failure:
  assumes "b \<in> set (subcalls lx a)" "call_result lx b = Some (Inl f)"
  shows "call_result lx a = Some (Inl f)"
proof (cases a)
  case (Call_parseExpression n cur)
  with assms show ?thesis by (cases n) auto
next
  case (Call_parseBinary n cur)
  with assms show ?thesis
    by (cases n) (auto simp: parseBinary_Suc dest!: subcalls_parseBinary_cases)
next
  case (Call_parseBinaryLoop n left cur)
  with assms show ?thesis
    by (cases n) (auto simp: parseBinaryLoop_Suc dest!: subcalls_parseBinaryLoop_cases)
next
  case (Call_parseUnary n cur)
  with assms show ?thesis
    by (cases n) (auto simp: subcalls_parseUnary_Suc parseUnary_Suc split: if_splits)
next
  case (Call_parsePrimary n cur)
  with assms show ?thesis
    by (cases n) (auto simp: subcalls_parsePrimary_Suc parsePrimary_Suc split: if_splits)
qed

lemma parseUnary_cursor:
  assumes "0 \<le> cur" "parseUnary n lx cur = Some (Inr (e, c))"
  shows "0 \<le> c"
  using progressD(3) [OF assms] assms(1) by simp

lemma subcall_cursor:
  assumes "b \<in> set (subcalls lx a)" "0 \<le> call_cursor a"
  shows "0 \<le> call_cursor b"
proof (cases a)
  case (Call_parseExpression n cur)
  with assms show ?thesis by (cases n) auto
next
  case (Call_parseBinary n cur)
  show ?thesis
  proof (cases n)
    case 0
    with assms Call_parseBinary show ?thesis by simp
  next
    case (Suc m)
    with assms Call_parseBinary
    have "b = Call_parseUnary m cur
       \<or> (\<exists>left c. parseUnary m lx cur = Some (Inr (left, c))
              \<and> b = Call_parseBinaryLoop m left c)"
      by (auto dest!: subcalls_parseBinary_cases)
    moreover have "0 \<le> cur" using assms(2) Call_parseBinary by simp
    ultimately show ?thesis by (auto dest: parseUnary_cursor)
  qed
next
  case (Call_parseBinaryLoop n left cur)
  show ?thesis
  proof (cases n)
    case 0
    with assms Call_parseBinaryLoop show ?thesis by simp
  next
    case (Suc m)
    with assms Call_parseBinaryLoop
    have "b = Call_parseUnary m (cur + 1)
          \<or> (\<exists>right c. parseUnary m lx (cur + 1) = Some (Inr (right, c))
                 \<and> b = Call_parseBinaryLoop m
                       (Binary (operation (token_container lx ! nat cur)) left right) c)"
      by (auto dest!: subcalls_parseBinaryLoop_cases)
    moreover have "0 \<le> cur + 1" using assms(2) Call_parseBinaryLoop by simp
    ultimately show ?thesis by (auto dest: parseUnary_cursor)
  qed
next
  case (Call_parseUnary n cur)
  with assms show ?thesis
    by (cases n) (auto simp: subcalls_parseUnary_Suc split: if_splits)
next
  case (Call_parsePrimary n cur)
  with assms show ?thesis
    by (cases n) (auto simp: subcalls_parsePrimary_Suc split: if_splits)
qed

lemma makes_call_failure:
  assumes "makes_call lx a b" "call_result lx b = Some (Inl f)"
  shows "call_result lx a = Some (Inl f)"
proof -
  from assms(1) have "rtranclp (calls_directly lx) a b" by (simp add: makes_call_def)
  then show ?thesis using assms(2)
  proof (induction rule: rtranclp_induct)
    case base
    then show ?case .
  next
    case (step y z)
    from step.hyps(2) step.prems have "call_result lx y = Some (Inl f)"
      by (auto simp: calls_directly_def intro: subcall_failure)
    then show ?case by (rule step.IH)
  qed
qed

lemma makes_call_cursor:
  assumes "makes_call lx a b" "0 \<le> call_cursor a"
  shows "0 \<le> call_cursor b"
proof -
  from assms(1) have "rtranclp (calls_directly lx) a b" by (simp add: makes_call_def)
  then show ?thesis using assms(2)
  proof (induction rule: rtranclp_induct)
    case base
    then show ?case .
  next
    case (step y z)
    then show ?case by (auto simp: calls_directly_def intro: subcall_cursor)
  qed
qed

lemma failure_origin_step:
  assumes "call_result lx a = Some (Inl f)"
  shows "(\<exists>b\<in>set (subcalls lx a). call_result lx b = Some (Inl f))
       \<or> (\<exists>n cur. a = Call_parsePrimary (Suc n) cur \<and> \<not> token_at lx cur Literal_op
             \<and> \<not> token_at lx cur L_Brace \<and> f = unexpectedToken lx cur)
       \<or> f = Thrown ParenthesesMismatchException"
proof (cases a)
  case (Call_parseExpression n cur)
  with assms show ?thesis by (cases n) auto
next
  case (Call_parseBinary n cur)
  show ?thesis
  proof (cases n)
    case 0
    with assms Call_parseBinary show ?thesis by simp
  next
    case (Suc m)
    show ?thesis
    proof (cases "parseUnary m lx cur")
      case None
      with assms Call_parseBinary Suc show ?thesis by (simp add: parseBinary_Suc)
    next
      case (Some r)
      show ?thesis
      proof (cases r)
        case (Inl g)
        with assms Call_parseBinary Suc Some show ?thesis
          by (simp add: parseBinary_Suc subcalls.simps(4))
      next
        case (Inr q)
        obtain left c where "q = (left, c)" by (cases q)
        with assms Call_parseBinary Suc Some Inr show ?thesis
          by (simp add: parseBinary_Suc subcalls.simps(4))
      qed
    qed
  qed
next
  case (Call_parseBinaryLoop n left cur)
  show ?thesis
  proof (cases n)
    case 0
    with assms Call_parseBinaryLoop show ?thesis by simp
  next
    case (Suc m)
    show ?thesis
    proof (cases "operator_at lx cur")
      case False
      with assms Call_parseBinaryLoop Suc show ?thesis by (simp add: parseBinaryLoop_Suc)
    next
      case True
      show ?thesis
      proof (cases "parseUnary m lx (cur + 1)")
        case None
        with assms Call_parseBinaryLoop Suc True show ?thesis
          by (simp add: parseBinaryLoop_Suc)
      next
        case (Some r)
        show ?thesis
        proof (cases r)
          case (Inl g)
          with assms Call_parseBinaryLoop Suc True Some show ?thesis
            by (simp add: parseBinaryLoop_Suc subcalls_parseBinaryLoop_Suc)
        next
          case (Inr q)
          obtain right c where "q = (right, c)" by (cases q)
          with assms Call_parseBinaryLoop Suc True Some Inr show ?thesis
            by (simp add: parseBinaryLoop_Suc subcalls_parseBinaryLoop_Suc)
        qed
      qed
    qed
  qed
next
  case (Call_parseUnary n cur)
  with assms show ?thesis
    by (cases n)
       (auto simp: parseUnary_Suc subcalls_parseUnary_Suc split: if_splits option.splits sum.splits)
next
  case (Call_parsePrimary n cur)
  with assms show ?thesis
    by (cases n)
       (auto simp: parsePrimary_Suc subcalls_parsePrimary_Suc
             split: if_splits option.splits sum.splits)
qed

lemma failure_origin:
  assumes "call_result lx a = Some (Inl (Thrown (UnexpectedTokenException r)))"
  shows "\<exists>n cur. makes_call lx a (Call_parsePrimary (Suc n) cur)
           \<and> \<not> token_at lx cur Literal_op \<and> \<not> token_at lx cur L_Brace
           \<and> unexpectedToken lx cur = Thrown (UnexpectedTokenException r)"
  using assms
proof (induction "call_depth a" arbitrary: a rule: less_induct)
  case less
  from failure_origin_step [OF less.prems]
  consider (sub) b where "b \<in> set (subcalls lx a)"
      "call_result lx b = Some (Inl (Thrown (UnexpectedTokenException r)))"
    | (self) n cur where "a = Call_parsePrimary (Suc n) cur" "\<not> token_at lx cur Literal_op"
      "\<not> token_at lx cur L_Brace" "Thrown (UnexpectedTokenException r) = unexpectedToken lx cur"
    by auto
  then show ?case
  proof cases
    case sub
    from subcall_depth [OF sub(1)] sub(2) less.hyps [of b]
    obtain n cur where o: "makes_call lx b (Call_parsePrimary (Suc n) cur)"
      "\<not> token_at lx cur Literal_op" "\<not> token_at lx cur L_Brace"
      "unexpectedToken lx cur = Thrown (UnexpectedTokenException r)" by blast
    from sub(1) o(1) have "makes_call lx a (Call_parsePrimary (Suc n) cur)"
      unfolding makes_call_def
      by (intro converse_rtranclp_into_rtranclp [of "calls_directly lx" a b])
         (simp_all add: calls_directly_def)
    with o(2,3,4) show ?thesis by blast
  next
    case self
    have "makes_call lx a a" by (simp add: makes_call_def)
    with self show ?thesis by auto
  qed
qed

lemma loop_trailing_operator:
  assumes "token_container lx = pre @ operator_operand_tokens rest @ [last_op]"
    and "\<forall>(ot, lt)\<in>set rest. is_binary_operator (operation ot) \<and> operation lt = Literal_op"
    and "is_binary_operator (operation last_op)"
    and "length rest + 3 \<le> n"
  shows "parseBinaryLoop n lx left (int (length pre))
           = Some (Inl (Thrown (UnexpectedTokenException (raw last_op))))"
  using assms
proof (induction rest arbitrary: pre left n)
  case Nil
  then obtain m where n: "n = Suc (Suc (Suc m))"
    by (cases n; cases "n - 1"; cases "n - 2") auto
  let ?cur = "int (length pre)"
  have tc: "token_container lx = pre @ [last_op]"
    using Nil.prems(1) by (simp add: operator_operand_tokens_def)
  have op: "operator_at lx ?cur"
    using Nil.prems(3) by (simp add: operator_at_def tc)
  have no: "\<not> token_at lx (?cur + 1) t" for t
    by (simp add: token_at_def tc)
  have "unexpectedToken lx (?cur + 1) = Thrown (UnexpectedTokenException (raw last_op))"
    by (subst unexpectedToken_eq) (simp_all add: tc min_def)
  then have "parseUnary (Suc (Suc m)) lx (?cur + 1)
               = Some (Inl (Thrown (UnexpectedTokenException (raw last_op))))"
    using no by (simp add: parseUnary_Suc parsePrimary_Suc)
  then show ?case
    unfolding n using op by (simp add: parseBinaryLoop_Suc [of "Suc (Suc m)"])
next
  case (Cons x rest)
  obtain ot lt where x: "x = (ot, lt)" by (cases x)
  from Cons.prems(4) obtain m where n: "n = Suc (Suc (Suc m))"
    by (cases n; cases "n - 1"; cases "n - 2") auto
  let ?cur = "int (length pre)"
  have tc: "token_container lx = pre @ ot # lt # operator_operand_tokens rest @ [last_op]"
    using Cons.prems(1) by (simp add: x operator_operand_tokens_def)
  have ops: "is_binary_operator (operation ot)" "operation lt = Literal_op"
    using Cons.prems(2) by (simp_all add: x)
  have at0: "token_container lx ! nat ?cur = ot"
    by (simp add: tc)
  have at1: "token_container lx ! nat (?cur + 1) = lt"
    by (simp add: tc nat_add_distrib nth_append)
  have op: "operator_at lx ?cur"
    using ops(1) at0 by (simp add: operator_at_def tc)
  have u: "parseUnary (Suc (Suc m)) lx (?cur + 1)
             = Some (Inr (Literal (token_value lt), ?cur + 1 + 1))"
    using literal_at [of "?cur + 1" lx m] at1 ops(2) by (simp add: tc)
  have pre': "token_container lx = (pre @ [ot, lt]) @ operator_operand_tokens rest @ [last_op]"
    by (simp add: tc)
  have rest: "\<forall>(ot, lt)\<in>set rest. is_binary_operator (operation ot) \<and> operation lt = Literal_op"
    using Cons.prems(2) by simp
  have depth: "length rest + 3 \<le> Suc (Suc m)"
    using Cons.prems(4) n by simp
  from Cons.IH [OF pre' rest Cons.prems(3) depth,
      of "Binary (operation ot) left (Literal (token_value lt))"]
  have "parseBinaryLoop (Suc (Suc m)) lx (Binary (operation ot) left (Literal (token_value lt)))
          (?cur + 1 + 1)
        = Some (Inl (Thrown (UnexpectedTokenException (raw last_op))))"
    by (simp add: add.commute)
  then show ?case
    unfolding n using op u at0
    by (simp add: parseBinaryLoop_Suc [of "Suc (Suc m)"])
qed

lemma parseExpression_trailing_operator:
  assumes "operation first = Literal_op"
    and "\<forall>(ot, lt)\<in>set rest. is_binary_operator (operation ot) \<and> operation lt = Literal_op"
    and "is_binary_operator (operation last_op)"
    and "token_container lx = first # operator_operand_tokens rest @ [last_op]"
  shows "parseExpression (parse_depth lx) lx 0
           = Some (Inl (Thrown (UnexpectedTokenException (raw last_op))))"
proof -
  have len: "length (token_container lx) = Suc (Suc (2 * length rest))"
    using assms(4) by (simp add: operator_operand_tokens_def length_concat comp_def split_def
        sum_list_triv)
  obtain m where d: "parse_depth lx = Suc (Suc (Suc (Suc m)))" and m: "length rest + 3 \<le> Suc (Suc m)"
    using len by (simp add: parse_depth_def getTokenCount_def)
  have u: "parseUnary (Suc (Suc m)) lx 0 = Some (Inr (Literal (token_value first), 0 + 1))"
    using literal_at [of 0 lx m] assms(1,4) by simp
  have tc: "token_container lx = [first] @ operator_operand_tokens rest @ [last_op]"
    using assms(4) by simp
  from loop_trailing_operator [OF tc assms(2,3) m, of "Literal (token_value first)"]
  have l: "parseBinaryLoop (Suc (Suc m)) lx (Literal (token_value first)) 1
        = Some (Inl (Thrown (UnexpectedTokenException (raw last_op))))"
    by simp
  show ?thesis
    unfolding d using u l by (simp add: parseBinary_Suc)
qed

lemma not_matched_iff:
  "tokenMatchAndAdvance lx op cur = Inr (False, cur) \<longleftrightarrow> \<not> token_at lx cur op"
  by (simp add: tokenMatchAndAdvance_eq)

lemma primary_call_decides:
  assumes t: "Tokenise s Lexer_init = Inr lx"
    and m: "makes_call lx (Call_parseExpression (parse_depth lx) 0) (Call_parsePrimary (Suc n) cur)"
    and l: "tokenMatchAndAdvance lx Literal_op cur = Inr (False, cur)"
    and b: "tokenMatchAndAdvance lx L_Brace cur = Inr (False, cur)"
  shows "Parse lf p s
     = Some (Inl (Thrown (UnexpectedTokenException
         (raw (token_container lx ! nat (min cur (int (getTokenCount lx) - 1)))))))"
proof -
  have ne: "token_container lx \<noteq> []" using t by (rule Tokenise_init(1))
  have c: "0 \<le> cur" using makes_call_cursor [OF m] by simp
  have "parsePrimary (Suc n) lx cur = Some (Inl (unexpectedToken lx cur))"
    using l b by (simp add: not_matched_iff parsePrimary_Suc)
  then have "call_result lx (Call_parsePrimary (Suc n) cur)
      = Some (Inl (Thrown (UnexpectedTokenException
         (raw (token_container lx ! nat (min cur (int (getTokenCount lx) - 1)))))))"
    by (simp add: unexpectedToken_eq [OF ne c] getTokenCount_def)
  from makes_call_failure [OF m this] t show ?thesis by (simp add: Parse_unfold)
qed

lemma unexpected_token_origin:
  assumes "Parse lf p s = Some (Inl (Thrown (UnexpectedTokenException r)))"
  shows "\<exists>lx n cur. Tokenise s Lexer_init = Inr lx
     \<and> makes_call lx (Call_parseExpression (parse_depth lx) 0) (Call_parsePrimary (Suc n) cur)
     \<and> tokenMatchAndAdvance lx Literal_op cur = Inr (False, cur)
     \<and> tokenMatchAndAdvance lx L_Brace cur = Inr (False, cur)
     \<and> r = raw (token_container lx ! nat (min cur (int (getTokenCount lx) - 1)))"
proof (cases rule: Parse_cases [of s lf p])
  case (lexical f)
  with Tokenise_failures [OF lexical(1)] assms show ?thesis by auto
next
  case (descent lx f)
  with assms have "call_result lx (Call_parseExpression (parse_depth lx) 0)
      = Some (Inl (Thrown (UnexpectedTokenException r)))" by simp
  from failure_origin [OF this] obtain n cur where
    o: "makes_call lx (Call_parseExpression (parse_depth lx) 0) (Call_parsePrimary (Suc n) cur)"
      "\<not> token_at lx cur Literal_op" "\<not> token_at lx cur L_Brace"
      "unexpectedToken lx cur = Thrown (UnexpectedTokenException r)" by blast
  have ne: "token_container lx \<noteq> []" using descent(1) by (rule Tokenise_init(1))
  have c: "0 \<le> cur" using makes_call_cursor [OF o(1)] by simp
  from o(4) have "r = raw (token_container lx ! nat (min cur (int (getTokenCount lx) - 1)))"
    by (simp add: unexpectedToken_eq [OF ne c] getTokenCount_def)
  with descent(1) o(1,2,3) show ?thesis by (auto simp: not_matched_iff)
next
  case (leftover lx e c)
  with assms show ?thesis by simp
next
  case (evaluated lx e)
  from Evaluate_ok [OF evaluated(3,4), of lf] evaluated(5) assms show ?thesis
    by (auto simp: evaluation_ok_def)
qed

section \<open>The claims\<close>

text \<open>
  C1. All four binary operators are parsed with equal precedence and associate to the
  left. A literal followed by any number of pairs of an operator among \<open>+ - * /\<close> and a
  literal is parsed into the tree that nests the pairs to the left, whatever the
  conventional precedence of the operators: the last operator is the root, and its left
  child is the tree of all that comes before it. With two operators, \<open>a op1 b op2 c\<close> is
  parsed as \<open>(a op1 b) op2 c\<close>. In particular \<open>Parse("1 + 3 * 4")\<close> returns 16 and
  \<open>Parse("1 - 5 * 2")\<close> returns -8, from the trees \<open>(1 + 3) * 4\<close> and \<open>(1 - 5) * 2\<close>.
\<close>

theorem C1_equal_precedence_left_associative:
  "Parse lf p ''1 + 3 * 4'' = Some (Inr 16)
 \<and> Parse lf p ''1 - 5 * 2'' = Some (Inr (- 8))
 \<and> syntax_tree ''1 + 3 * 4''
     = Some (Inr (Binary Multiplication (Binary Addition (Literal 1) (Literal 3)) (Literal 4)))
 \<and> syntax_tree ''1 - 5 * 2''
     = Some (Inr (Binary Multiplication (Binary Subtraction (Literal 1) (Literal 5)) (Literal 2)))
 \<and> (\<forall>op1 op2 a b c v1 v2 ra r1 rb r2 rc s lx.
       is_binary_operator op1 \<and> is_binary_operator op2
       \<and> lx = \<lparr>token_container =
               [\<lparr>operation = Literal_op, token_value = a, raw = ra\<rparr>,
                \<lparr>operation = op1, token_value = v1, raw = r1\<rparr>,
                \<lparr>operation = Literal_op, token_value = b, raw = rb\<rparr>,
                \<lparr>operation = op2, token_value = v2, raw = r2\<rparr>,
                \<lparr>operation = Literal_op, token_value = c, raw = rc\<rparr>],
             expression = s\<rparr> \<longrightarrow>
       parseExpression (parse_depth lx) lx 0
         = Some (Inr (Binary op2 (Binary op1 (Literal a) (Literal b)) (Literal c), 5)))
 \<and> (\<forall>first rest lx.
       operation first = Literal_op
       \<and> (\<forall>(ot, lt)\<in>set rest. is_binary_operator (operation ot) \<and> operation lt = Literal_op)
       \<and> token_container lx = first # operator_operand_tokens rest \<longrightarrow>
       parseExpression (parse_depth lx) lx 0
         = Some (Inr (left_nested (Literal (token_value first)) rest, int (getTokenCount lx))))
 \<and> (\<forall>left. left_nested left [] = left)
 \<and> (\<forall>left rest ot lt.
       left_nested left (rest @ [(ot, lt)])
         = Binary (operation ot) (left_nested left rest) (Literal (token_value lt)))"
proof -
  have t1: "syntax_tree ''1 + 3 * 4''
     = Some (Inr (Binary Multiplication (Binary Addition (Literal 1) (Literal 3)) (Literal 4)))"
    by code_simp
  have t2: "syntax_tree ''1 - 5 * 2''
     = Some (Inr (Binary Multiplication (Binary Subtraction (Literal 1) (Literal 5)) (Literal 2)))"
    by code_simp
  have v1: "Parse lf p ''1 + 3 * 4'' = Some (Inr 16)"
    by (simp add: Parse_syntax_tree t1 in_int_small)
  have v2: "Parse lf p ''1 - 5 * 2'' = Some (Inr (- 8))"
    by (simp add: Parse_syntax_tree t2 in_int_small)
  have three: "\<forall>op1 op2 a b c v1 v2 ra r1 rb r2 rc s lx.
       is_binary_operator op1 \<and> is_binary_operator op2
       \<and> lx = \<lparr>token_container =
               [\<lparr>operation = Literal_op, token_value = a, raw = ra\<rparr>,
                \<lparr>operation = op1, token_value = v1, raw = r1\<rparr>,
                \<lparr>operation = Literal_op, token_value = b, raw = rb\<rparr>,
                \<lparr>operation = op2, token_value = v2, raw = r2\<rparr>,
                \<lparr>operation = Literal_op, token_value = c, raw = rc\<rparr>],
             expression = s\<rparr> \<longrightarrow>
       parseExpression (parse_depth lx) lx 0
         = Some (Inr (Binary op2 (Binary op1 (Literal a) (Literal b)) (Literal c), 5))"
    using parse_three_operands by blast
  have many: "\<forall>first rest lx.
       operation first = Literal_op
       \<and> (\<forall>(ot, lt)\<in>set rest. is_binary_operator (operation ot) \<and> operation lt = Literal_op)
       \<and> token_container lx = first # operator_operand_tokens rest \<longrightarrow>
       parseExpression (parse_depth lx) lx 0
         = Some (Inr (left_nested (Literal (token_value first)) rest, int (getTokenCount lx)))"
    using parseExpression_left_nested by blast
  have nil: "\<forall>left. left_nested left [] = left"
    by (simp add: left_nested_def)
  have snoc: "\<forall>left rest ot lt.
       left_nested left (rest @ [(ot, lt)])
         = Binary (operation ot) (left_nested left rest) (Literal (token_value lt))"
    by (simp add: left_nested_snoc)
  from v1 v2 t1 t2 three many nil snoc show ?thesis by (intro conjI)
qed

theorem C1_witness:
  "Tokenise ''7 - 2 * 3'' Lexer_init = Inr tokens_7_2_3
   \<and> parseExpression (parse_depth tokens_7_2_3) tokens_7_2_3 0
       = Some (Inr (Binary Multiplication (Binary Subtraction (Literal 7) (Literal 2)) (Literal 3), 5))
   \<and> parseExpression (parse_depth tokens_7_2_3) tokens_7_2_3 0
       = Some (Inr (left_nested (Literal 7)
            [(\<lparr>operation = Subtraction, token_value = - 1, raw = ''-''\<rparr>,
              \<lparr>operation = Literal_op, token_value = 2, raw = ''2''\<rparr>),
             (\<lparr>operation = Multiplication, token_value = - 1, raw = ''*''\<rparr>,
              \<lparr>operation = Literal_op, token_value = 3, raw = ''3''\<rparr>)], 5))"
proof -
  note claim = C1_equal_precedence_left_associative [of left_to_right RDParser_init]
  note three = claim [THEN conjunct2, THEN conjunct2, THEN conjunct2, THEN conjunct2,
      THEN conjunct1, rule_format]
  note many = claim [THEN conjunct2, THEN conjunct2, THEN conjunct2, THEN conjunct2,
      THEN conjunct2, THEN conjunct1, rule_format]
  have t: "Tokenise ''7 - 2 * 3'' Lexer_init = Inr tokens_7_2_3" by code_simp
  have a: "parseExpression (parse_depth tokens_7_2_3) tokens_7_2_3 0
       = Some (Inr (Binary Multiplication (Binary Subtraction (Literal 7) (Literal 2)) (Literal 3), 5))"
    by (rule three [where ra = "''7''" and ?r1.0 = "''-''" and rb = "''2''" and ?r2.0 = "''*''"
              and rc = "''3''" and ?v1.0 = "- 1" and ?v2.0 = "- 1" and s = "''7 - 2 * 3''"])
       (simp add: is_binary_operator_def tokens_7_2_3_def)
  have b: "parseExpression (parse_depth tokens_7_2_3) tokens_7_2_3 0
       = Some (Inr (left_nested (Literal (token_value
                \<lparr>operation = Literal_op, token_value = 7, raw = ''7''\<rparr>))
            [(\<lparr>operation = Subtraction, token_value = - 1, raw = ''-''\<rparr>,
              \<lparr>operation = Literal_op, token_value = 2, raw = ''2''\<rparr>),
             (\<lparr>operation = Multiplication, token_value = - 1, raw = ''*''\<rparr>,
              \<lparr>operation = Literal_op, token_value = 3, raw = ''3''\<rparr>)],
            int (getTokenCount tokens_7_2_3)))"
    by (rule many)
       (simp add: is_binary_operator_def tokens_7_2_3_def operator_operand_tokens_def)
  from t a b show ?thesis by (simp add: getTokenCount_def tokens_7_2_3_def)
qed

text \<open>
  C2 (amended). The order of the operands of a \<open>Binary\<close> node depends on the operator.
  A division evaluates its right operand first: when the right operand fails or is zero,
  the left operand has no influence on the result, and a failure of the left operand shows
  only after the right operand has returned a value other than zero. For \<open>+\<close>, \<open>-\<close> and
  \<open>*\<close> the two operands are evaluated in one C++ expression, in the order that the
  compiler chooses: the failure of the operand evaluated first is the failure of the node.
\<close>

theorem C2_operand_order:
  "(\<forall>left'. (\<exists>f. Evaluate lf right = Inl f) \<or> Evaluate lf right = Inr 0 \<longrightarrow>
       Evaluate lf (Binary Division left right) = Evaluate lf (Binary Division left' right))
 \<and> (\<forall>v f. Evaluate lf right = Inr v \<and> v \<noteq> 0 \<and> Evaluate lf left = Inl f \<longrightarrow>
       Evaluate lf (Binary Division left right) = Inl f)
 \<and> (\<forall>op f. (op = Addition \<or> op = Subtraction \<or> op = Multiplication) \<and> lf op
        \<and> Evaluate lf left = Inl f \<longrightarrow>
       Evaluate lf (Binary op left right) = Inl f)
 \<and> (\<forall>op f. (op = Addition \<or> op = Subtraction \<or> op = Multiplication) \<and> \<not> lf op
        \<and> Evaluate lf right = Inl f \<longrightarrow>
       Evaluate lf (Binary op left right) = Inl f)"
proof (intro conjI allI impI)
  fix left'
  assume "(\<exists>f. Evaluate lf right = Inl f) \<or> Evaluate lf right = Inr 0"
  then show "Evaluate lf (Binary Division left right) = Evaluate lf (Binary Division left' right)"
    by auto
next
  fix v f
  assume "Evaluate lf right = Inr v \<and> v \<noteq> 0 \<and> Evaluate lf left = Inl f"
  then show "Evaluate lf (Binary Division left right) = Inl f" by simp
next
  fix op f
  assume "(op = Addition \<or> op = Subtraction \<or> op = Multiplication) \<and> lf op
        \<and> Evaluate lf left = Inl f"
  then show "Evaluate lf (Binary op left right) = Inl f"
    by (auto simp: operands_def)
next
  fix op f
  assume "(op = Addition \<or> op = Subtraction \<or> op = Multiplication) \<and> \<not> lf op
        \<and> Evaluate lf right = Inl f"
  then show "Evaluate lf (Binary op left right) = Inl f"
    by (auto simp: operands_def)
qed

theorem C2_witness:
  "Evaluate left_to_right (Binary Division (Literal 1) (Binary Division (Literal 1) (Literal 0)))
     = Evaluate left_to_right
         (Binary Division (Binary None_op (Literal 1) (Literal 1))
            (Binary Division (Literal 1) (Literal 0)))
   \<and> Evaluate left_to_right (Binary Division (Binary None_op (Literal 1) (Literal 1)) (Literal 2))
     = Inl (Thrown UnknownOperatorException)
   \<and> Evaluate left_to_right
       (Binary Addition (Binary None_op (Literal 1) (Literal 1))
          (Binary Division (Literal 1) (Literal 0)))
     = Inl (Thrown UnknownOperatorException)
   \<and> Evaluate right_to_left
       (Binary Addition (Binary None_op (Literal 1) (Literal 1))
          (Binary Division (Literal 1) (Literal 0)))
     = Inl (Thrown DivideByZeroException)"
  using C2_operand_order [of left_to_right "Binary Division (Literal 1) (Literal 0)" "Literal 1"]
    C2_operand_order [of left_to_right "Literal 2" "Binary None_op (Literal 1) (Literal 1)"]
    C2_operand_order [of left_to_right "Binary Division (Literal 1) (Literal 0)"
                         "Binary None_op (Literal 1) (Literal 1)"]
    C2_operand_order [of right_to_left "Binary Division (Literal 1) (Literal 0)"
                         "Binary None_op (Literal 1) (Literal 1)"]
  by (simp add: left_to_right_def right_to_left_def)

theorem C2_counterexample:
  "Evaluate left_to_right (Binary None_op (Literal 1) (Literal 1))
     = Inl (Thrown UnknownOperatorException)
   \<and> Evaluate left_to_right (Binary Division (Literal 1) (Literal 0))
     = Inl (Thrown DivideByZeroException)
   \<and> Evaluate left_to_right
       (Binary Division (Binary None_op (Literal 1) (Literal 1))
          (Binary Division (Literal 1) (Literal 0)))
     = Inl (Thrown DivideByZeroException)
   \<and> Evaluate left_to_right (Binary Addition (Literal 2147483647) (Literal 1))
     = Inl SignedOverflow
   \<and> Parse left_to_right RDParser_init ''(2147483647 + 1) / (1 / 0)''
     = Some (Inl (Thrown DivideByZeroException))"
proof -
  have t: "syntax_tree ''(2147483647 + 1) / (1 / 0)''
    = Some (Inr (Binary Division (Binary Addition (Literal 2147483647) (Literal 1))
                   (Binary Division (Literal 1) (Literal 0))))"
    by code_simp
  show ?thesis
    by (simp add: Parse_syntax_tree t int_result_def in_int_def INT_MIN_def INT_MAX_def)
qed

text \<open>
  C3 (amended). If the input holds a character outside the set of the invalid-token
  pattern, \<open>Tokenise\<close> fails with \<open>InvalidTokenException\<close>, and the exception carries
  one substring of one character for each such character, in the order of the input:
  a run of disallowed characters is reported character by character.
\<close>

theorem C3_invalid_characters_reported_singly:
  assumes "\<exists>c\<in>set s. \<not> allowed_char c"
  shows "Tokenise s lx =
     Inl (Thrown (InvalidTokenException (map (\<lambda>c. [c]) (filter (\<lambda>c. \<not> allowed_char c) s))))"
proof -
  from assms have "\<not> (\<forall>c\<in>set s. allowed_char c)" by blast
  with Tokenise_cases [of s lx] show ?thesis by blast
qed

theorem C3_witness:
  "Tokenise ''2 x 3y'' Lexer_init = Inl (Thrown (InvalidTokenException [''x'', ''y'']))"
  using C3_invalid_characters_reported_singly [of "''2 x 3y''" Lexer_init]
  by (simp add: allowed_char_def)

theorem C3_counterexample:
  "Tokenise ''1 + 3 + test'' Lexer_init
     = Inl (Thrown (InvalidTokenException [''t'', ''e'', ''s'', ''t'']))
   \<and> Tokenise ''1 + 3 + test'' Lexer_init \<noteq> Inl (Thrown (InvalidTokenException [''test'']))"
proof -
  have "Tokenise ''1 + 3 + test'' Lexer_init
     = Inl (Thrown (InvalidTokenException [''t'', ''e'', ''s'', ''t'']))"
    by code_simp
  then show ?thesis by simp
qed

text \<open>
  C4 (amended). For an input all of whose characters are digits, one of \<open>+-*/()\<close> or
  the space character, \<open>Tokenise\<close> never fails with \<open>InvalidTokenException\<close>; the valid
  tokens, joined, are the input with its spaces removed, so a space emits no token.
\<close>

theorem C4_allowed_characters_accepted:
  assumes "\<forall>c\<in>set s. allowed_char c"
  shows "(\<forall>ts. Tokenise s lx \<noteq> Inl (Thrown (InvalidTokenException ts)))
     \<and> concat (regexFindSubstrings (lx\<lparr>expression := s\<rparr>) REGEX_TOKEN_PATTERN)
         = filter (\<lambda>c. c \<noteq> CHR '' '') s
     \<and> (\<forall>lx'. Tokenise s lx = Inr lx' \<longrightarrow>
           concat (map raw (token_container lx'))
             = concat (map raw (token_container lx)) @ filter (\<lambda>c. c \<noteq> CHR '' '') s)"
proof (intro conjI allI impI)
  fix ts
  from assms have "\<not> (\<exists>c\<in>set s. \<not> allowed_char c)" by blast
  with Tokenise_cases [of s lx]
  have "Tokenise s lx = Inl (Thrown EmptyExpressionException) \<or> Tokenise s lx = Inl StdOutOfRange
        \<or> (\<exists>l. Tokenise s lx = Inr l)" by blast
  then show "Tokenise s lx \<noteq> Inl (Thrown (InvalidTokenException ts))" by auto
next
  show "concat (regexFindSubstrings (lx\<lparr>expression := s\<rparr>) REGEX_TOKEN_PATTERN)
         = filter (\<lambda>c. c \<noteq> CHR '' '') s"
    by (simp add: regexFindSubstrings_def token_matches_concat filter_allowed [OF assms])
next
  fix lx' assume ok: "Tokenise s lx = Inr lx'"
  let ?Q = "\<exists>ts. Tokenise s lx
        = Inr \<lparr>token_container = token_container lx @ ts, expression = s\<rparr>
      \<and> (\<forall>c\<in>set s. allowed_char c)
      \<and> ts \<noteq> [] \<and> map raw ts = regex_matches REGEX_TOKEN_PATTERN s
      \<and> (\<forall>t\<in>set ts. valid_token t)"
  from Tokenise_cases [of s lx]
  have "(\<exists>f. Tokenise s lx = Inl f) \<or> ?Q" by blast
  moreover have "\<not> (\<exists>f. Tokenise s lx = Inl f)" using ok by simp
  ultimately have ?Q by blast
  then obtain ts where ts: "Tokenise s lx
        = Inr \<lparr>token_container = token_container lx @ ts, expression = s\<rparr>"
    "map raw ts = regex_matches REGEX_TOKEN_PATTERN s" by blast
  from ts(1) ok have "token_container lx' = token_container lx @ ts" by (cases lx') simp
  then show "concat (map raw (token_container lx'))
             = concat (map raw (token_container lx)) @ filter (\<lambda>c. c \<noteq> CHR '' '') s"
    using ts(2) by (simp add: token_matches_concat filter_allowed [OF assms])
qed

theorem C4_witness:
  "(\<forall>ts. Tokenise ''1 + 23'' Lexer_init \<noteq> Inl (Thrown (InvalidTokenException ts)))
   \<and> concat (regexFindSubstrings (Lexer_init\<lparr>expression := ''1 + 23''\<rparr>) REGEX_TOKEN_PATTERN)
       = ''1+23''"
  using C4_allowed_characters_accepted [of "''1 + 23''" Lexer_init]
  by (simp add: allowed_char_def)

theorem C4_counterexample:
  "Tokenise [CHR ''1'', CHR 0x09, CHR ''2''] Lexer_init
     = Inl (Thrown (InvalidTokenException [[CHR 0x09]]))"
  by code_simp

text \<open>
  C5 (amended). For every \<open>Binary\<close> division node the right operand is evaluated first.
  If it fails, the node fails in the same way; if its value is zero, the node fails with
  \<open>DivideByZeroException\<close>, whatever the left operand is. Otherwise, when the left operand
  evaluates to \<open>u\<close> and the right one to \<open>v\<close>, both values of \<open>int\<close>, the result is the
  quotient truncated towards zero (its absolute value is \<open>|u| div |v|\<close>), except for
  \<open>u = INT_MIN\<close> and \<open>v = -1\<close>, whose quotient is not a value of \<open>int\<close>.
  \<open>Parse("5 / 0")\<close> fails with \<open>DivideByZeroException\<close>.
\<close>

theorem C5_division_by_zero_checked_first:
  "(\<forall>f. Evaluate lf right = Inl f \<longrightarrow> Evaluate lf (Binary Division left right) = Inl f)
 \<and> (Evaluate lf right = Inr 0 \<longrightarrow>
       Evaluate lf (Binary Division left right) = Inl (Thrown DivideByZeroException))
 \<and> (\<forall>u v. Evaluate lf right = Inr v \<and> v \<noteq> 0 \<and> Evaluate lf left = Inr u
        \<and> in_int u \<and> in_int v \<and> \<not> (u = INT_MIN \<and> v = - 1) \<longrightarrow>
       Evaluate lf (Binary Division left right) = Inr (trunc_div u v)
       \<and> \<bar>trunc_div u v\<bar> = \<bar>u\<bar> div \<bar>v\<bar>)
 \<and> Parse lf p ''5 / 0'' = Some (Inl (Thrown DivideByZeroException))"
proof (intro conjI allI impI)
  fix f assume "Evaluate lf right = Inl f"
  then show "Evaluate lf (Binary Division left right) = Inl f" by simp
next
  assume "Evaluate lf right = Inr 0"
  then show "Evaluate lf (Binary Division left right) = Inl (Thrown DivideByZeroException)"
    by simp
next
  fix u v
  assume h: "Evaluate lf right = Inr v \<and> v \<noteq> 0 \<and> Evaluate lf left = Inr u
        \<and> in_int u \<and> in_int v \<and> \<not> (u = INT_MIN \<and> v = - 1)"
  then have "in_int (trunc_div u v)" by (intro trunc_div_in_int) simp_all
  with h show "Evaluate lf (Binary Division left right) = Inr (trunc_div u v)"
    by (simp add: int_result_def)
next
  fix u v :: int
  have "0 \<le> \<bar>u\<bar> div \<bar>v\<bar>" by (simp add: div_int_pos_iff)
  then show "\<bar>trunc_div u v\<bar> = \<bar>u\<bar> div \<bar>v\<bar>" by (simp add: trunc_div_def)
next
  have "syntax_tree ''5 / 0'' = Some (Inr (Binary Division (Literal 5) (Literal 0)))"
    by code_simp
  then show "Parse lf p ''5 / 0'' = Some (Inl (Thrown DivideByZeroException))"
    by (simp add: Parse_syntax_tree)
qed

theorem C5_witness:
  "Evaluate left_to_right (Binary Division (Literal 1) (Binary Division (Literal 1) (Literal 0)))
     = Inl (Thrown DivideByZeroException)
   \<and> Evaluate left_to_right (Binary Division (Literal 7) (Literal 0))
     = Inl (Thrown DivideByZeroException)
   \<and> Evaluate left_to_right (Binary Division (Unary (Literal 7)) (Literal 2)) = Inr (- 3)
   \<and> Evaluate left_to_right (Binary Division (Literal 7) (Unary (Literal 2))) = Inr (- 3)"
proof -
  have l: "in_int 7" "in_int (- 7)" "in_int 2" "in_int (- 2)"
    by (simp_all add: in_int_def INT_MIN_def INT_MAX_def)
  have e: "Evaluate left_to_right (Unary (Literal 7)) = Inr (- 7)"
    "Evaluate left_to_right (Unary (Literal 2)) = Inr (- 2)"
    "Evaluate left_to_right (Binary Division (Literal 1) (Literal 0))
       = Inl (Thrown DivideByZeroException)"
    using l by (simp_all add: int_result_def)
  have t: "trunc_div (- 7) 2 = - 3" "trunc_div 7 (- 2) = - 3" by (simp_all add: trunc_div_def)
  show ?thesis
    using C5_division_by_zero_checked_first
            [of left_to_right "Binary Division (Literal 1) (Literal 0)" "Literal 1" RDParser_init]
          C5_division_by_zero_checked_first
            [of left_to_right "Literal 0" "Literal 7" RDParser_init]
          C5_division_by_zero_checked_first
            [of left_to_right "Literal 2" "Unary (Literal 7)" RDParser_init]
          C5_division_by_zero_checked_first
            [of left_to_right "Unary (Literal 2)" "Literal 7" RDParser_init]
          e l t
    by (simp add: INT_MIN_def)
qed

theorem C5_counterexample:
  "Evaluate left_to_right (Binary Subtraction (Unary (Literal 2147483647)) (Literal 1))
     = Inr (- 2147483648)
   \<and> Evaluate left_to_right (Unary (Literal 1)) = Inr (- 1)
   \<and> Evaluate left_to_right
       (Binary Division (Binary Subtraction (Unary (Literal 2147483647)) (Literal 1))
          (Unary (Literal 1)))
     = Inl SignedOverflow
   \<and> Parse left_to_right RDParser_init ''(-2147483647 - 1) / -1'' = Some (Inl SignedOverflow)"
proof -
  have t: "syntax_tree ''(-2147483647 - 1) / -1''
    = Some (Inr (Binary Division (Binary Subtraction (Unary (Literal 2147483647)) (Literal 1))
          (Unary (Literal 1))))"
    by code_simp
  show ?thesis
    by (simp add: Parse_syntax_tree t int_result_def in_int_def INT_MIN_def INT_MAX_def
        trunc_div_def)
qed

text \<open>
  C6 (amended). If the top-level call of \<open>parseExpression\<close> returns with the cursor
  before the end of the token sequence, \<open>Parse\<close> fails with
  \<open>UnexpectedParenthesesException\<close>. The token left at the cursor is then never one of the
  four binary operators; it can be an opening parenthesis as well as a closing one.
  \<open>Parse("5 + 6) *+ 4")\<close> and \<open>Parse("5( + 6 *+ 4")\<close> both fail with
  \<open>UnexpectedParenthesesException\<close>.
\<close>

theorem C6_leftover_tokens:
  "(\<forall>lx e c. Tokenise s Lexer_init = Inr lx
        \<and> parseExpression (parse_depth lx) lx 0 = Some (Inr (e, c))
        \<and> c < int (getTokenCount lx) \<longrightarrow>
      Parse lf p s = Some (Inl (Thrown UnexpectedParenthesesException))
      \<and> 0 < c \<and> \<not> is_binary_operator (operation (token_container lx ! nat c)))
 \<and> Parse lf p ''5 + 6) *+ 4'' = Some (Inl (Thrown UnexpectedParenthesesException))
 \<and> Parse lf p ''5( + 6 *+ 4'' = Some (Inl (Thrown UnexpectedParenthesesException))"
proof (intro conjI allI impI)
  fix lx e c
  assume h: "Tokenise s Lexer_init = Inr lx
        \<and> parseExpression (parse_depth lx) lx 0 = Some (Inr (e, c))
        \<and> c < int (getTokenCount lx)"
  then have c: "0 < c \<and> \<not> is_binary_operator (operation (token_container lx ! nat c))"
    by (intro cursor_not_operator [of "parse_depth lx" lx e c]) (simp_all add: getTokenCount_def)
  then show "0 < c" and "\<not> is_binary_operator (operation (token_container lx ! nat c))"
    by simp_all
  show "Parse lf p s = Some (Inl (Thrown UnexpectedParenthesesException))"
    using h c by (simp add: Parse_unfold)
next
  have "syntax_tree ''5 + 6) *+ 4'' = Some (Inl (Thrown UnexpectedParenthesesException))"
    by code_simp
  then show "Parse lf p ''5 + 6) *+ 4'' = Some (Inl (Thrown UnexpectedParenthesesException))"
    by (simp add: Parse_syntax_tree)
next
  have "syntax_tree ''5( + 6 *+ 4'' = Some (Inl (Thrown UnexpectedParenthesesException))"
    by code_simp
  then show "Parse lf p ''5( + 6 *+ 4'' = Some (Inl (Thrown UnexpectedParenthesesException))"
    by (simp add: Parse_syntax_tree)
qed

theorem C6_witness:
  "Parse left_to_right RDParser_init ''5)'' = Some (Inl (Thrown UnexpectedParenthesesException))
   \<and> \<not> is_binary_operator (operation (token_container tokens_5_paren ! nat 1))"
proof -
  have t: "Tokenise ''5)'' Lexer_init = Inr tokens_5_paren" by code_simp
  have e: "parseExpression (parse_depth tokens_5_paren) tokens_5_paren 0
             = Some (Inr (Literal 5, 1))" by code_simp
  have c: "(1::int) < int (getTokenCount tokens_5_paren)"
    by (simp add: getTokenCount_def tokens_5_paren_def)
  from C6_leftover_tokens [of "''5)''" left_to_right RDParser_init] t e c
  show ?thesis by blast
qed

theorem C6_counterexample:
  "(case Tokenise ''5( + 6 *+ 4'' Lexer_init of
      Inl f \<Rightarrow> False
    | Inr lx \<Rightarrow>
        parseExpression (parse_depth lx) lx 0 = Some (Inr (Literal 5, 1))
        \<and> map operation (token_container lx)
            = [Literal_op, L_Brace, Addition, Literal_op, Multiplication, Addition, Literal_op])
   \<and> Parse left_to_right RDParser_init ''5( + 6 *+ 4''
       = Some (Inl (Thrown UnexpectedParenthesesException))"
  by code_simp

text \<open>
  C7. When \<open>parsePrimary\<close> finds neither a literal nor an opening parenthesis at the
  cursor, it fails with \<open>UnexpectedTokenException\<close> carrying the raw text of the token at
  the cursor, or of the last token when the cursor is past the end, and this is what
  \<open>Parse\<close> reports. The token sequence of \<open>Parse\<close> is never empty, a failure of the
  descent is the failure of \<open>Parse\<close>, and the text carried by an
  \<open>UnexpectedTokenException\<close> of \<open>Parse\<close> is always that of a token of the input. A failure
  of a call of a parsing routine is the failure of the call that made it, directly or
  through other calls: no routine catches or replaces it, the parenthesis branch of
  \<open>parsePrimary\<close> included. Hence whenever the descent of \<open>Parse\<close> reaches a call of
  \<open>parsePrimary\<close> that finds neither a literal nor an opening parenthesis, \<open>Parse\<close> fails
  with \<open>UnexpectedTokenException\<close> carrying the raw text of the token at the cursor of that
  call, or of the last token when that cursor is past the end; and every
  \<open>UnexpectedTokenException\<close> of \<open>Parse\<close> comes from such a call. In particular a literal
  followed by pairs of an operator and a literal and then one more operator among
  \<open>+ - * /\<close> makes \<open>Parse\<close> fail with \<open>UnexpectedTokenException\<close> naming that last
  operator. \<open>Parse("5 + 6 + 4 +")\<close> and \<open>Parse("(+)")\<close> fail with
  \<open>UnexpectedTokenException\<close> naming \<open>+\<close>, \<open>Parse("2*(5+)")\<close> and \<open>Parse("-(1+(2*))")\<close>
  with \<open>UnexpectedTokenException\<close> naming \<open>)\<close>.
\<close>

theorem C7_unexpected_token_clamped:
  "(\<forall>n lx cur. token_container lx \<noteq> [] \<and> 0 \<le> cur
        \<and> tokenMatchAndAdvance lx Literal_op cur = Inr (False, cur)
        \<and> tokenMatchAndAdvance lx L_Brace cur = Inr (False, cur) \<longrightarrow>
      parsePrimary (Suc n) lx cur
        = Some (Inl (Thrown (UnexpectedTokenException
            (raw (token_container lx ! nat (min cur (int (getTokenCount lx) - 1))))))))
 \<and> (\<forall>lx. Tokenise s Lexer_init = Inr lx \<longrightarrow> token_container lx \<noteq> [])
 \<and> (\<forall>lx f. Tokenise s Lexer_init = Inr lx
        \<and> parseExpression (parse_depth lx) lx 0 = Some (Inl f) \<longrightarrow>
      Parse lf p s = Some (Inl f))
 \<and> (\<forall>r. Parse lf p s = Some (Inl (Thrown (UnexpectedTokenException r))) \<longrightarrow>
      (\<exists>lx i. Tokenise s Lexer_init = Inr lx \<and> i < getTokenCount lx
          \<and> r = raw (token_container lx ! i)))
 \<and> Parse lf p ''5 + 6 + 4 +'' = Some (Inl (Thrown (UnexpectedTokenException ''+'')))
 \<and> (\<forall>lx a b f. b \<in> set (subcalls lx a) \<and> call_result lx b = Some (Inl f) \<longrightarrow>
      call_result lx a = Some (Inl f))
 \<and> (\<forall>lx a b f. makes_call lx a b \<and> call_result lx b = Some (Inl f) \<longrightarrow>
      call_result lx a = Some (Inl f))
 \<and> (\<forall>lx n cur. Tokenise s Lexer_init = Inr lx
        \<and> makes_call lx (Call_parseExpression (parse_depth lx) 0) (Call_parsePrimary (Suc n) cur)
        \<and> tokenMatchAndAdvance lx Literal_op cur = Inr (False, cur)
        \<and> tokenMatchAndAdvance lx L_Brace cur = Inr (False, cur) \<longrightarrow>
      Parse lf p s
        = Some (Inl (Thrown (UnexpectedTokenException
            (raw (token_container lx ! nat (min cur (int (getTokenCount lx) - 1))))))))
 \<and> (\<forall>r. Parse lf p s = Some (Inl (Thrown (UnexpectedTokenException r))) \<longrightarrow>
      (\<exists>lx n cur. Tokenise s Lexer_init = Inr lx
          \<and> makes_call lx (Call_parseExpression (parse_depth lx) 0)
                (Call_parsePrimary (Suc n) cur)
          \<and> tokenMatchAndAdvance lx Literal_op cur = Inr (False, cur)
          \<and> tokenMatchAndAdvance lx L_Brace cur = Inr (False, cur)
          \<and> r = raw (token_container lx ! nat (min cur (int (getTokenCount lx) - 1)))))
 \<and> (\<forall>lx first rest last_op. Tokenise s Lexer_init = Inr lx
        \<and> operation first = Literal_op
        \<and> (\<forall>(ot, lt)\<in>set rest. is_binary_operator (operation ot) \<and> operation lt = Literal_op)
        \<and> is_binary_operator (operation last_op)
        \<and> token_container lx = first # operator_operand_tokens rest @ [last_op] \<longrightarrow>
      Parse lf p s = Some (Inl (Thrown (UnexpectedTokenException (raw last_op)))))
 \<and> Parse lf p ''(+)'' = Some (Inl (Thrown (UnexpectedTokenException ''+'')))
 \<and> Parse lf p ''2*(5+)'' = Some (Inl (Thrown (UnexpectedTokenException '')'')))
 \<and> Parse lf p ''-(1+(2*))'' = Some (Inl (Thrown (UnexpectedTokenException '')'')))"
proof -
  have c1: "\<forall>n lx cur. token_container lx \<noteq> [] \<and> 0 \<le> cur
        \<and> tokenMatchAndAdvance lx Literal_op cur = Inr (False, cur)
        \<and> tokenMatchAndAdvance lx L_Brace cur = Inr (False, cur) \<longrightarrow>
      parsePrimary (Suc n) lx cur
        = Some (Inl (Thrown (UnexpectedTokenException
            (raw (token_container lx ! nat (min cur (int (getTokenCount lx) - 1)))))))"
    by (simp add: not_matched_iff parsePrimary_Suc unexpectedToken_eq getTokenCount_def)
  have c2: "\<forall>lx. Tokenise s Lexer_init = Inr lx \<longrightarrow> token_container lx \<noteq> []"
    by (simp add: Tokenise_init(1))
  have c3: "\<forall>lx f. Tokenise s Lexer_init = Inr lx
        \<and> parseExpression (parse_depth lx) lx 0 = Some (Inl f) \<longrightarrow>
      Parse lf p s = Some (Inl f)"
    by (simp add: Parse_unfold)
  have c9: "\<forall>r. Parse lf p s = Some (Inl (Thrown (UnexpectedTokenException r))) \<longrightarrow>
      (\<exists>lx n cur. Tokenise s Lexer_init = Inr lx
          \<and> makes_call lx (Call_parseExpression (parse_depth lx) 0)
                (Call_parsePrimary (Suc n) cur)
          \<and> tokenMatchAndAdvance lx Literal_op cur = Inr (False, cur)
          \<and> tokenMatchAndAdvance lx L_Brace cur = Inr (False, cur)
          \<and> r = raw (token_container lx ! nat (min cur (int (getTokenCount lx) - 1))))"
    using unexpected_token_origin by blast
  have c4: "\<forall>r. Parse lf p s = Some (Inl (Thrown (UnexpectedTokenException r))) \<longrightarrow>
      (\<exists>lx i. Tokenise s Lexer_init = Inr lx \<and> i < getTokenCount lx
          \<and> r = raw (token_container lx ! i))"
  proof (intro allI impI)
    fix r assume "Parse lf p s = Some (Inl (Thrown (UnexpectedTokenException r)))"
    from unexpected_token_origin [OF this] obtain lx n cur where
      o: "Tokenise s Lexer_init = Inr lx"
        "makes_call lx (Call_parseExpression (parse_depth lx) 0) (Call_parsePrimary (Suc n) cur)"
        "r = raw (token_container lx ! nat (min cur (int (getTokenCount lx) - 1)))" by blast
    have "token_container lx \<noteq> []" using o(1) by (rule Tokenise_init(1))
    moreover have "0 \<le> cur" using makes_call_cursor [OF o(2)] by simp
    ultimately have "nat (min cur (int (getTokenCount lx) - 1)) < getTokenCount lx"
      by (cases "token_container lx") (auto simp: min_def getTokenCount_def)
    with o(1,3) show "\<exists>lx i. Tokenise s Lexer_init = Inr lx \<and> i < getTokenCount lx
          \<and> r = raw (token_container lx ! i)" by blast
  qed
  have t5: "syntax_tree ''5 + 6 + 4 +'' = Some (Inl (Thrown (UnexpectedTokenException ''+'')))"
    by code_simp
  have c5: "Parse lf p ''5 + 6 + 4 +'' = Some (Inl (Thrown (UnexpectedTokenException ''+'')))"
    using t5 by (simp add: Parse_syntax_tree)
  have c6: "\<forall>lx a b f. b \<in> set (subcalls lx a) \<and> call_result lx b = Some (Inl f) \<longrightarrow>
      call_result lx a = Some (Inl f)"
    using subcall_failure by blast
  have c7: "\<forall>lx a b f. makes_call lx a b \<and> call_result lx b = Some (Inl f) \<longrightarrow>
      call_result lx a = Some (Inl f)"
    using makes_call_failure by blast
  have c8: "\<forall>lx n cur. Tokenise s Lexer_init = Inr lx
        \<and> makes_call lx (Call_parseExpression (parse_depth lx) 0) (Call_parsePrimary (Suc n) cur)
        \<and> tokenMatchAndAdvance lx Literal_op cur = Inr (False, cur)
        \<and> tokenMatchAndAdvance lx L_Brace cur = Inr (False, cur) \<longrightarrow>
      Parse lf p s
        = Some (Inl (Thrown (UnexpectedTokenException
            (raw (token_container lx ! nat (min cur (int (getTokenCount lx) - 1)))))))"
    using primary_call_decides by blast
  have c10: "\<forall>lx first rest last_op. Tokenise s Lexer_init = Inr lx
        \<and> operation first = Literal_op
        \<and> (\<forall>(ot, lt)\<in>set rest. is_binary_operator (operation ot) \<and> operation lt = Literal_op)
        \<and> is_binary_operator (operation last_op)
        \<and> token_container lx = first # operator_operand_tokens rest @ [last_op] \<longrightarrow>
      Parse lf p s = Some (Inl (Thrown (UnexpectedTokenException (raw last_op))))"
  proof (intro allI impI)
    fix lx first rest last_op
    assume h: "Tokenise s Lexer_init = Inr lx
        \<and> operation first = Literal_op
        \<and> (\<forall>(ot, lt)\<in>set rest. is_binary_operator (operation ot) \<and> operation lt = Literal_op)
        \<and> is_binary_operator (operation last_op)
        \<and> token_container lx = first # operator_operand_tokens rest @ [last_op]"
    then have "parseExpression (parse_depth lx) lx 0
           = Some (Inl (Thrown (UnexpectedTokenException (raw last_op))))"
      by (intro parseExpression_trailing_operator [of first rest]) simp_all
    with h show "Parse lf p s = Some (Inl (Thrown (UnexpectedTokenException (raw last_op))))"
      by (simp add: Parse_unfold)
  qed
  have t11: "syntax_tree ''(+)'' = Some (Inl (Thrown (UnexpectedTokenException ''+'')))"
    by code_simp
  have c11: "Parse lf p ''(+)'' = Some (Inl (Thrown (UnexpectedTokenException ''+'')))"
    using t11 by (simp add: Parse_syntax_tree)
  have t12: "syntax_tree ''2*(5+)'' = Some (Inl (Thrown (UnexpectedTokenException '')'')))"
    by code_simp
  have c12: "Parse lf p ''2*(5+)'' = Some (Inl (Thrown (UnexpectedTokenException '')'')))"
    using t12 by (simp add: Parse_syntax_tree)
  have t13: "syntax_tree ''-(1+(2*))'' = Some (Inl (Thrown (UnexpectedTokenException '')'')))"
    by code_simp
  have c13: "Parse lf p ''-(1+(2*))'' = Some (Inl (Thrown (UnexpectedTokenException '')'')))"
    using t13 by (simp add: Parse_syntax_tree)
  from c1 c2 c3 c4 c5 c6 c7 c8 c9 c10 c11 c12 c13 show ?thesis by (intro conjI)
qed

theorem C7_witness:
  "Tokenise ''5+'' Lexer_init = Inr tokens_5_plus
   \<and> parsePrimary (Suc 0) tokens_5_plus 2
       = Some (Inl (Thrown (UnexpectedTokenException ''+'')))
   \<and> makes_call tokens_5_plus (Call_parseExpression (parse_depth tokens_5_plus) 0)
       (Call_parsePrimary (Suc 7) 2)
   \<and> tokenMatchAndAdvance tokens_5_plus Literal_op 2 = Inr (False, 2)
   \<and> tokenMatchAndAdvance tokens_5_plus L_Brace 2 = Inr (False, 2)
   \<and> raw (token_container tokens_5_plus ! nat (min 2 (int (getTokenCount tokens_5_plus) - 1)))
       = ''+''
   \<and> Parse left_to_right RDParser_init ''5+''
       = Some (Inl (Thrown (UnexpectedTokenException ''+'')))"
proof -
  note general = C7_unexpected_token_clamped [of "''5+''" left_to_right RDParser_init,
      THEN conjunct1, rule_format]
  note reached = C7_unexpected_token_clamped [of "''5+''" left_to_right RDParser_init,
      THEN conjunct2, THEN conjunct2, THEN conjunct2, THEN conjunct2, THEN conjunct2,
      THEN conjunct2, THEN conjunct2, THEN conjunct1, rule_format]
  have t: "Tokenise ''5+'' Lexer_init = Inr tokens_5_plus" by code_simp
  have ne: "token_container tokens_5_plus \<noteq> []" by code_simp
  have l: "tokenMatchAndAdvance tokens_5_plus Literal_op 2 = Inr (False, 2)" by code_simp
  have b: "tokenMatchAndAdvance tokens_5_plus L_Brace 2 = Inr (False, 2)" by code_simp
  have r: "raw (token_container tokens_5_plus
              ! nat (min 2 (int (getTokenCount tokens_5_plus) - 1))) = ''+''"
    by code_simp
  have d: "parse_depth tokens_5_plus = 12" by code_simp
  have s1: "calls_directly tokens_5_plus (Call_parseExpression 12 0) (Call_parseBinary 11 0)"
    by code_simp
  have s2: "calls_directly tokens_5_plus (Call_parseBinary 11 0)
              (Call_parseBinaryLoop 10 (Literal 5) 1)"
    by code_simp
  have s3: "calls_directly tokens_5_plus (Call_parseBinaryLoop 10 (Literal 5) 1)
              (Call_parseUnary 9 2)"
    by code_simp
  have s4: "calls_directly tokens_5_plus (Call_parseUnary 9 2) (Call_parsePrimary (Suc 7) 2)"
    by code_simp
  have m: "makes_call tokens_5_plus (Call_parseExpression (parse_depth tokens_5_plus) 0)
       (Call_parsePrimary (Suc 7) 2)"
  proof -
    have "rtranclp (calls_directly tokens_5_plus) (Call_parseExpression 12 0)
            (Call_parseBinary 11 0)"
      using s1 by (rule r_into_rtranclp)
    then have "rtranclp (calls_directly tokens_5_plus) (Call_parseExpression 12 0)
            (Call_parseBinaryLoop 10 (Literal 5) 1)"
      using s2 by (rule rtranclp.rtrancl_into_rtrancl)
    then have "rtranclp (calls_directly tokens_5_plus) (Call_parseExpression 12 0)
            (Call_parseUnary 9 2)"
      using s3 by (rule rtranclp.rtrancl_into_rtrancl)
    then have "rtranclp (calls_directly tokens_5_plus) (Call_parseExpression 12 0)
            (Call_parsePrimary (Suc 7) 2)"
      using s4 by (rule rtranclp.rtrancl_into_rtrancl)
    then show ?thesis by (simp only: makes_call_def d)
  qed
  have "parsePrimary (Suc 0) tokens_5_plus 2
       = Some (Inl (Thrown (UnexpectedTokenException ''+'')))"
    using general [of tokens_5_plus 2 0] ne l b r by simp
  moreover have "Parse left_to_right RDParser_init ''5+''
       = Some (Inl (Thrown (UnexpectedTokenException ''+'')))"
    using reached [of tokens_5_plus 7 2] t m l b r by simp
  ultimately show ?thesis using t m l b r by (intro conjI)
qed

text \<open>
  C8 (amended). For every input string \<open>Parse\<close> returns a value of \<open>int\<close>, or fails
  with an exception of the program other than \<open>TokenIndexOutOfRange\<close> and
  \<open>UnknownOperatorException\<close>, or fails with the \<open>std::out_of_range\<close> of \<open>std::stoi\<close>,
  which needs a digit run above \<open>INT_MAX\<close>, or overflows \<open>int\<close> in the evaluation. For an
  input of digits, \<open>+-*/()\<close> and spaces the exception is not \<open>InvalidTokenException\<close>.
\<close>

theorem C8_parse_outcomes:
  "((\<exists>v. Parse lf p s = Some (Inr v) \<and> in_int v)
    \<or> (\<exists>e. Parse lf p s = Some (Inl (Thrown e))
          \<and> e \<noteq> TokenIndexOutOfRange \<and> e \<noteq> UnknownOperatorException)
    \<or> (Parse lf p s = Some (Inl StdOutOfRange)
        \<and> (\<exists>r\<in>set (regex_matches REGEX_TOKEN_PATTERN s). digit_run r \<and> INT_MAX < decimal r))
    \<or> Parse lf p s = Some (Inl SignedOverflow))
 \<and> ((\<forall>c\<in>set s. allowed_char c) \<longrightarrow>
      (\<forall>ts. Parse lf p s \<noteq> Some (Inl (Thrown (InvalidTokenException ts)))))"
proof
  show "(\<exists>v. Parse lf p s = Some (Inr v) \<and> in_int v)
    \<or> (\<exists>e. Parse lf p s = Some (Inl (Thrown e))
          \<and> e \<noteq> TokenIndexOutOfRange \<and> e \<noteq> UnknownOperatorException)
    \<or> (Parse lf p s = Some (Inl StdOutOfRange)
        \<and> (\<exists>r\<in>set (regex_matches REGEX_TOKEN_PATTERN s). digit_run r \<and> INT_MAX < decimal r))
    \<or> Parse lf p s = Some (Inl SignedOverflow)"
  proof (cases rule: Parse_cases [of s lf p])
    case (lexical f)
    from Tokenise_failures [OF lexical(1)] lexical(2) show ?thesis by auto
  next
    case (descent lx f)
    then show ?thesis by (auto simp: failure_ok_def)
  next
    case (leftover lx e c)
    then show ?thesis by simp
  next
    case (evaluated lx e)
    from Evaluate_ok [OF evaluated(3,4), of lf] evaluated(5) show ?thesis
      by (auto simp: evaluation_ok_def)
  qed
next
  show "(\<forall>c\<in>set s. allowed_char c) \<longrightarrow>
      (\<forall>ts. Parse lf p s \<noteq> Some (Inl (Thrown (InvalidTokenException ts))))"
  proof (intro impI allI)
    fix ts assume allowed: "\<forall>c\<in>set s. allowed_char c"
    show "Parse lf p s \<noteq> Some (Inl (Thrown (InvalidTokenException ts)))"
    proof (cases rule: Parse_cases [of s lf p])
      case (lexical f)
      from Tokenise_failures [OF lexical(1)] lexical(2) allowed show ?thesis by auto
    next
      case (descent lx f)
      then show ?thesis by (auto simp: failure_ok_def)
    next
      case (leftover lx e c)
      then show ?thesis by simp
    next
      case (evaluated lx e)
      from Evaluate_ok [OF evaluated(3,4), of lf] evaluated(5) show ?thesis
        by (auto simp: evaluation_ok_def)
    qed
  qed
qed

theorem C8_witness:
  "\<forall>ts. Parse left_to_right RDParser_init ''(1 + 2'' \<noteq> Some (Inl (Thrown (InvalidTokenException ts)))"
  using C8_parse_outcomes [of left_to_right RDParser_init "''(1 + 2''"]
  by (simp add: allowed_char_def)

theorem C8_counterexample:
  "Parse left_to_right RDParser_init ''2147483648'' = Some (Inl StdOutOfRange)
   \<and> Parse left_to_right RDParser_init ''2147483647 + 1'' = Some (Inl SignedOverflow)
   \<and> Parse left_to_right RDParser_init ''0 - 2147483647 - 2'' = Some (Inl SignedOverflow)"
  by code_simp

text \<open>
  C9. \<open>getToken\<close> fails with \<open>TokenIndexOutOfRange\<close> exactly when the index is outside
  \<open>[0, length)\<close>, and returns a token exactly when it is inside. \<open>tokenMatchAndAdvance\<close>
  and the condition of the loop of \<open>parseBinary\<close> never fail, and no call of \<open>Parse\<close>
  ends with \<open>TokenIndexOutOfRange\<close>: every token access of the descent, the look-back at
  \<open>cursor - 1\<close> and the clamped access of \<open>parsePrimary\<close> included, stays within bounds.
\<close>

theorem C9_token_index_in_range:
  "(getToken lx i = Inl (Thrown TokenIndexOutOfRange)) = (i < 0 \<or> int (getTokenCount lx) \<le> i)
 \<and> (\<exists>t. getToken lx i = Inr t) = (0 \<le> i \<and> i < int (getTokenCount lx))
 \<and> (\<exists>matched c. tokenMatchAndAdvance lx op cur = Inr (matched, c))
 \<and> (\<exists>matched c. matchBinaryOperator lx cur = Inr (matched, c))
 \<and> Parse lf p s \<noteq> Some (Inl (Thrown TokenIndexOutOfRange))"
proof (intro conjI)
  show "(getToken lx i = Inl (Thrown TokenIndexOutOfRange)) = (i < 0 \<or> int (getTokenCount lx) \<le> i)"
    by (auto simp: getToken_def getTokenCount_def)
  show "(\<exists>t. getToken lx i = Inr t) = (0 \<le> i \<and> i < int (getTokenCount lx))"
    by (auto simp: getToken_def getTokenCount_def)
  show "\<exists>matched c. tokenMatchAndAdvance lx op cur = Inr (matched, c)"
    by (auto simp: tokenMatchAndAdvance_eq)
  show "\<exists>matched c. matchBinaryOperator lx cur = Inr (matched, c)"
    by (auto simp: matchBinaryOperator_eq)
  show "Parse lf p s \<noteq> Some (Inl (Thrown TokenIndexOutOfRange))"
  proof (cases rule: Parse_cases [of s lf p])
    case (lexical f)
    from Tokenise_failures [OF lexical(1)] lexical(2) show ?thesis by auto
  next
    case (descent lx f)
    then show ?thesis by (auto simp: failure_ok_def)
  next
    case (leftover lx e c)
    then show ?thesis by simp
  next
    case (evaluated lx e)
    from Evaluate_ok [OF evaluated(3,4), of lf] evaluated(5) show ?thesis
      by (auto simp: evaluation_ok_def)
  qed
qed

theorem C9_witness:
  "getToken Lexer_init 0 = Inl (Thrown TokenIndexOutOfRange)
   \<and> Parse left_to_right RDParser_init ''5 + 6 + 4 +'' \<noteq> Some (Inl (Thrown TokenIndexOutOfRange))"
  using C9_token_index_in_range [of Lexer_init 0 Addition 0 left_to_right RDParser_init "''5 + 6 + 4 +''"]
  by (simp add: getTokenCount_def Lexer_init_def)



end
